theory Spec2Isabelle
  imports Main
begin

section \<open>Data model of package job (group.go)\<close>

text \<open>
  A Go \<^verbatim>\<open>error\<close> is \<^verbatim>\<open>nil\<close> or a value made by \<^verbatim>\<open>errors.New(msg)\<close>:
  the model keeps the message. The payload type \<^verbatim>\<open>interface{}\<close> is the type
  parameter \<open>'v\<close>.
\<close>

type_synonym error = "string option"

text \<open>\<^verbatim>\<open>type Result struct { Value interface{}; Error error }\<close> (lines 20-23).\<close>

record 'v Result =
  Value :: 'v
  Error :: error

text \<open>
  \<^verbatim>\<open>type GroupResult struct { Results []Result; Error error }\<close> (lines 25-28).
  The second field is \<open>GroupError\<close> here, since a record field name is global.
\<close>

record 'v GroupResult =
  Results :: "'v Result list"
  GroupError :: error

text \<open>
  A task is user code behind the interface \<^verbatim>\<open>Tasker\<close> (lines 31-33). One call of
  \<^verbatim>\<open>Execute()\<close> returns a pair, panics with a value (kept as \<^verbatim>\<open>%v\<close> renders it,
  line 285), or never returns. \<open>TaskTimeout\<close> says whether the type assertion
  \<^verbatim>\<open>t.(TaskTimeout)\<close> of lines 299 and 306 succeeds.
\<close>

datatype 'v outcome = Returns 'v error | Panics string | Hangs

record 'v Tasker =
  Execute :: "'v outcome"
  TaskTimeout :: bool

text \<open>
  One call of \<^verbatim>\<open>Logger.Error(message, err, data)\<close> with the three keys of the map
  built at lines 286-290.
\<close>

record LogEntry =
  message :: string
  err :: error
  data_name :: string
  data_i :: nat
  data_stack :: string

text \<open>
  The parent context of a group (field \<^verbatim>\<open>ctx\<close>): \<open>None\<close> is \<^verbatim>\<open>nil\<close>; a parent is
  either still live when the run derives its own context from it, or cancelled already.
\<close>

datatype Context = Live | Cancelled

text \<open>
  \<^verbatim>\<open>type Group struct\<close> (lines 144-154). \<open>timeout\<close> is a \<^verbatim>\<open>time.Duration\<close>, a
  signed count of nanoseconds. The mutex and the wait group are part of the run state
  below; the logger is a collaborator whose calls the run state records.
\<close>

record 'v Group =
  name :: string
  tasks :: "'v Tasker list"
  timeout :: int
  collectResult :: bool
  ctx :: "Context option"

subsection \<open>Options and construction (lines 60-141)\<close>

record options =
  Duration :: int
  CollectRet :: bool
  Ctx :: "Context option"

datatype Option = WithLog | WithDuration int | WithCtx "Context option" | WithCollectRet

fun bind :: "Option \<Rightarrow> options \<Rightarrow> options" where
  "bind WithLog ops = ops"
| "bind (WithDuration d) ops = ops\<lparr>Duration := d\<rparr>"
| "bind (WithCtx c) ops = ops\<lparr>Ctx := c\<rparr>"
| "bind WithCollectRet ops = ops\<lparr>CollectRet := True\<rparr>"

definition NewTaskGroup :: "string \<Rightarrow> Option list \<Rightarrow> 'v Group" where
  "NewTaskGroup nm opts =
     (let defaultOptions = fold bind opts \<lparr>Duration = 0, CollectRet = False, Ctx = None\<rparr>
      in \<lparr>name = nm, tasks = [], timeout = Duration defaultOptions,
          collectResult = CollectRet defaultOptions, ctx = Ctx defaultOptions\<rparr>)"

subsection \<open>Group operations (lines 156-210)\<close>

definition AddTasks :: "'v Tasker list \<Rightarrow> 'v Group \<Rightarrow> 'v Group" where
  "AddTasks ts tg = tg\<lparr>tasks := tasks tg @ ts\<rparr>"

definition AddTask :: "'v Tasker \<Rightarrow> 'v Group \<Rightarrow> 'v Group" where
  "AddTask t tg = AddTasks [t] tg"

text \<open>A \<^verbatim>\<open>TaskFunc\<close> has the method \<^verbatim>\<open>Execute\<close> only (lines 39-43).\<close>

definition AddTaskFunc :: "'v outcome \<Rightarrow> 'v Group \<Rightarrow> 'v Group" where
  "AddTaskFunc fn tg = AddTasks [\<lparr>Execute = fn, TaskTimeout = False\<rparr>] tg"

definition Reset :: "'v Group \<Rightarrow> 'v Group" where
  "Reset tg = tg\<lparr>tasks := [], ctx := None\<rparr>"

definition WithContext :: "Context \<Rightarrow> 'v Group \<Rightarrow> 'v Group" where
  "WithContext c tg = tg\<lparr>ctx := Some c\<rparr>"

definition isTimeout :: "'v Group \<Rightarrow> bool" where
  "isTimeout tg = (timeout tg > 0)"

text \<open>
  \<^verbatim>\<open>takeContext\<close> (lines 186-198) derives the run's context from the parent, with a
  timer when \<open>isTimeout\<close>. The model keeps what the run reads of it: whether
  \<^verbatim>\<open>ctx.Done()\<close> is closed. At derivation it is closed exactly when the parent is
  cancelled already; \<open>canFire\<close> says whether something other than the run's own
  \<^verbatim>\<open>cancel()\<close> can close it later (the timer, or the parent).
\<close>

definition takeContext :: "'v Group \<Rightarrow> bool" where
  "takeContext tg = (ctx tg = Some Cancelled)"

definition canFire :: "'v Group \<Rightarrow> bool" where
  "canFire tg = (isTimeout tg \<or> ctx tg \<noteq> None)"

definition check :: "'v Group \<Rightarrow> error" where
  "check tg =
     (if length (tasks tg) = 0 then Some ''no tasks to execute''
      else if collectResult tg \<and> \<not> isTimeout tg then Some ''no timeout set for result collection''
      else None)"

subsection \<open>The stack text of a recovered panic (lines 280-283)\<close>

text \<open>\<^verbatim>\<open>bytes.IndexByte\<close>: the index of the first occurrence, or -1.\<close>

fun IndexByte :: "string \<Rightarrow> char \<Rightarrow> int" where
  "IndexByte [] c = -1"
| "IndexByte (x # xs) c =
     (if x = c then 0 else (let r = IndexByte xs c in if r < 0 then -1 else r + 1))"

definition trimStack :: "string \<Rightarrow> string" where
  "trimStack stack =
     (let line = IndexByte stack (CHR 0x0A)
      in if line \<ge> 0 then drop (nat (line + 1)) stack else stack)"

section \<open>One execution as a transition system\<close>

text \<open>
  \<^verbatim>\<open>ExecChan\<close> starts one goroutine per task (\<^verbatim>\<open>run\<close>, lines 273-313), one that
  waits for the wait group (lines 235-238) and one that collects (lines 240-250). Each
  goroutine is a program counter; an event lets one goroutine run its next statement.
  The model is of one execution: the wait group starts at zero, so no worker of an
  earlier execution of the same group is still running. The calls into user code other
  than \<^verbatim>\<open>Execute\<close> (the timeout handler, the logger) are taken to return, and a panic
  value to be non-nil.
\<close>

datatype 'v worker =
    Running
  | Checking "'v Result"
  | Racing "'v Result"
  | Recovering string
  | Finishing
  | Exited

datatype waiter = WNotLaunched | Waiting | DoneClosed

datatype 'v collector =
    NotLaunched
  | AtCancel
  | AtWait
  | AtClose
  | Draining "'v Result list"
  | AtSend "'v Result list"
  | AtDeferCancel
  | AtDeferClose
  | Returned

text \<open>
  \<^item> \<open>workers\<close>: the worker goroutines, by task index. \<open>Running\<close>: inside
    \<^verbatim>\<open>t.Execute()\<close> (line 294); \<open>Checking ret\<close>: at the outer \<^verbatim>\<open>select\<close> (line 297);
    \<open>Racing ret\<close>: at the inner \<^verbatim>\<open>select\<close> (line 303); \<open>Recovering r\<close>: a panic with
    value \<open>r\<close> unwinds into the deferred function of lines 278-292; \<open>Finishing\<close>: the
    deferred \<^verbatim>\<open>tg.wg.Done()\<close> (line 277) is next.
  \<^item> \<open>collector\<close>: the goroutine of lines 240-250, by the statement it is at:
    \<open>AtCancel\<close> the conditional \<^verbatim>\<open>cancel()\<close> (line 244), \<open>AtWait\<close> the \<^verbatim>\<open>select\<close> of
    \<^verbatim>\<open>collectResults\<close> (line 258), \<open>AtClose\<close> \<^verbatim>\<open>close(retChan)\<close> (line 262),
    \<open>Draining results\<close> the \<^verbatim>\<open>range\<close> loop (line 267), \<open>AtSend results\<close> the send on
    \<^verbatim>\<open>ch\<close> (line 249), then the deferred \<^verbatim>\<open>cancel()\<close> (line 242) and \<^verbatim>\<open>close(ch)\<close>
    (line 241), which run in that order. \<open>NotLaunched\<close>: the goroutine was never started.
  \<^item> \<open>ctxDone\<close>: \<^verbatim>\<open>ctx.Done()\<close> is closed.
  \<^item> \<open>retChan\<close>, \<open>retChanClosed\<close>: the buffer of the collection channel (capacity
    \<^verbatim>\<open>len(tg.tasks)\<close>, line 229) and whether it is closed.
  \<^item> \<open>wg\<close>: the wait group's counter. \<open>waiter\<close>: the goroutine that closes \<^verbatim>\<open>done\<close>.
  \<^item> \<open>ch\<close>, \<open>chClosed\<close>: the buffer of the returned channel (capacity 1, line 222);
    \<open>received\<close>: what the caller has received from it.
  \<^item> \<open>log\<close>: the calls of \<^verbatim>\<open>tg.log.Error\<close>; \<open>timeoutCalls\<close>: the calls of
    \<^verbatim>\<open>TimeoutHandler\<close>, with the task index and the two arguments.
  \<^item> \<open>delivery\<close>: history of the sends into \<open>retChan\<close> that succeeded, by task index.
\<close>

record 'v state =
  workers :: "'v worker list"
  ctxDone :: bool
  retChan :: "'v Result list"
  retChanClosed :: bool
  wg :: int
  waiter :: waiter
  collector :: "'v collector"
  ch :: "'v GroupResult list"
  chClosed :: bool
  received :: "'v GroupResult list"
  log :: "LogEntry list"
  timeoutCalls :: "(nat \<times> 'v \<times> error) list"
  delivery :: "nat list"

text \<open>
  Events. \<open>Worker i\<close>: worker \<open>i\<close> runs its next statement where that is determined.
  At the inner \<^verbatim>\<open>select\<close> Go picks among the cases that can proceed, so the pick is
  part of the event: \<open>SelectSend i\<close> and \<open>SelectDone i\<close>. \<open>Recover i dump\<close>: the
  deferred function of worker \<open>i\<close> recovers, \<^verbatim>\<open>debug.Stack()\<close> returning \<open>dump\<close>.
  \<open>Deadline\<close>: the timer of \<^verbatim>\<open>context.WithTimeout\<close> fires, or the parent context is
  cancelled. \<open>Receive\<close>: the caller receives from the returned channel (line 214).
\<close>

datatype event =
    Worker nat
  | SelectSend nat
  | SelectDone nat
  | Recover nat string
  | WgWait
  | Deadline
  | Collector
  | Receive

text \<open>
  Lines 299-301 and 306-308: the timeout path of a worker. The handler is user code;
  the model records the call and takes it to return. Afterwards the deferred function
  of lines 278-292 finds nothing to recover, and the deferred \<^verbatim>\<open>Done\<close> is next.
\<close>

definition timeoutPath :: "'v Group \<Rightarrow> nat \<Rightarrow> 'v Result \<Rightarrow> 'v state \<Rightarrow> 'v state" where
  "timeoutPath tg i ret s =
     s\<lparr>workers := (workers s)[i := Finishing],
       timeoutCalls :=
         (if TaskTimeout (tasks tg ! i) then timeoutCalls s @ [(i, Value ret, Error ret)]
          else timeoutCalls s)\<rparr>"

definition launched :: "'v Group \<Rightarrow> nat \<Rightarrow> 'v state \<Rightarrow> bool" where
  "launched tg i s = (i < length (workers s) \<and> i < length (tasks tg))"

text \<open>
  Lines 294-297 and 277: the call of \<^verbatim>\<open>Execute\<close>; the outer \<^verbatim>\<open>select\<close>, whose only case
  is \<^verbatim>\<open><-ctx.Done()\<close> and whose \<^verbatim>\<open>default\<close> leads to the inner one; the deferred
  \<^verbatim>\<open>tg.wg.Done()\<close>. A worker inside a task that never returns has no step.
\<close>

definition workerStep :: "'v Group \<Rightarrow> nat \<Rightarrow> 'v state \<Rightarrow> 'v state option" where
  "workerStep tg i s =
     (if \<not> launched tg i s then None
      else case workers s ! i of
        Running \<Rightarrow>
          (case Execute (tasks tg ! i) of
             Returns v e \<Rightarrow>
               Some (s\<lparr>workers := (workers s)[i := Checking \<lparr>Value = v, Error = e\<rparr>]\<rparr>)
           | Panics r \<Rightarrow> Some (s\<lparr>workers := (workers s)[i := Recovering r]\<rparr>)
           | Hangs \<Rightarrow> None)
      | Checking ret \<Rightarrow>
          (if ctxDone s then Some (timeoutPath tg i ret s)
           else Some (s\<lparr>workers := (workers s)[i := Racing ret]\<rparr>))
      | Finishing \<Rightarrow> Some (s\<lparr>workers := (workers s)[i := Exited], wg := wg s - 1\<rparr>)
      | _ \<Rightarrow> None)"

text \<open>
  Line 304, \<^verbatim>\<open>case retChan <- ret\<close>. A send on a closed channel can proceed and
  panics; on an open channel it can proceed while the buffer has room.
\<close>

definition selectSend :: "'v Group \<Rightarrow> nat \<Rightarrow> 'v state \<Rightarrow> 'v state option" where
  "selectSend tg i s =
     (if \<not> launched tg i s then None
      else case workers s ! i of
        Racing ret \<Rightarrow>
          (if retChanClosed s
           then Some (s\<lparr>workers := (workers s)[i := Recovering ''send on closed channel'']\<rparr>)
           else if length (retChan s) < length (tasks tg)
           then Some (s\<lparr>workers := (workers s)[i := Finishing],
                        retChan := retChan s @ [ret],
                        delivery := delivery s @ [i]\<rparr>)
           else None)
      | _ \<Rightarrow> None)"

text \<open>Line 305, \<^verbatim>\<open>case <-ctx.Done()\<close>: can proceed once the context is done.\<close>

definition selectDone :: "'v Group \<Rightarrow> nat \<Rightarrow> 'v state \<Rightarrow> 'v state option" where
  "selectDone tg i s =
     (if \<not> launched tg i s then None
      else case workers s ! i of
        Racing ret \<Rightarrow> (if ctxDone s then Some (timeoutPath tg i ret s) else None)
      | _ \<Rightarrow> None)"

text \<open>Lines 278-292: the deferred function that recovers and logs.\<close>

definition recoverStep :: "'v Group \<Rightarrow> nat \<Rightarrow> string \<Rightarrow> 'v state \<Rightarrow> 'v state option" where
  "recoverStep tg i dump s =
     (if \<not> launched tg i s then None
      else case workers s ! i of
        Recovering r \<Rightarrow>
          Some (s\<lparr>workers := (workers s)[i := Finishing],
                  log := log s @ [\<lparr>message = ''task run error'', err = Some r,
                                   data_name = name tg, data_i = i,
                                   data_stack = trimStack dump\<rparr>]\<rparr>)
      | _ \<Rightarrow> None)"

text \<open>Lines 235-238: \<^verbatim>\<open>tg.wg.Wait(); close(done)\<close>.\<close>

definition waiterStep :: "'v state \<Rightarrow> 'v state option" where
  "waiterStep s =
     (if waiter s = Waiting \<and> wg s = 0 then Some (s\<lparr>waiter := DoneClosed\<rparr>) else None)"

text \<open>The timer or the parent closes \<^verbatim>\<open>ctx.Done()\<close>; there is a context once the run is launched.\<close>

definition deadlineStep :: "'v Group \<Rightarrow> 'v state \<Rightarrow> 'v state option" where
  "deadlineStep tg s =
     (if canFire tg \<and> collector s \<noteq> NotLaunched then Some (s\<lparr>ctxDone := True\<rparr>) else None)"

text \<open>
  Lines 240-250 with \<^verbatim>\<open>collectResults\<close> (lines 256-271) inlined: the conditional
  \<^verbatim>\<open>cancel()\<close>, the \<^verbatim>\<open>select\<close> on \<^verbatim>\<open>ctx.Done()\<close> and \<^verbatim>\<open>done\<close>, \<^verbatim>\<open>close(retChan)\<close>, the
  \<^verbatim>\<open>range\<close> loop (one receive per event), the send on \<^verbatim>\<open>ch\<close>, and the two deferred calls.
\<close>

definition collectorStep :: "'v Group \<Rightarrow> 'v state \<Rightarrow> 'v state option" where
  "collectorStep tg s =
     (case collector s of
        NotLaunched \<Rightarrow> None
      | AtCancel \<Rightarrow>
          Some (s\<lparr>collector := AtWait,
                  ctxDone := (if \<not> isTimeout tg then True else ctxDone s)\<rparr>)
      | AtWait \<Rightarrow>
          (if ctxDone s \<or> waiter s = DoneClosed then Some (s\<lparr>collector := AtClose\<rparr>) else None)
      | AtClose \<Rightarrow>
          Some (s\<lparr>retChanClosed := True,
                  collector := (if \<not> collectResult tg then AtSend [] else Draining [])\<rparr>)
      | Draining results \<Rightarrow>
          (case retChan s of
             result # rest \<Rightarrow>
               Some (s\<lparr>retChan := rest, collector := Draining (results @ [result])\<rparr>)
           | [] \<Rightarrow> (if retChanClosed s then Some (s\<lparr>collector := AtSend results\<rparr>) else None))
      | AtSend results \<Rightarrow>
          (if length (ch s) < 1
           then Some (s\<lparr>ch := ch s @ [\<lparr>Results = results, GroupError = None\<rparr>],
                        collector := AtDeferCancel\<rparr>)
           else None)
      | AtDeferCancel \<Rightarrow> Some (s\<lparr>ctxDone := True, collector := AtDeferClose\<rparr>)
      | AtDeferClose \<Rightarrow> Some (s\<lparr>chClosed := True, collector := Returned\<rparr>)
      | Returned \<Rightarrow> None)"

text \<open>Line 214: the caller takes a buffered value from \<^verbatim>\<open>ch\<close>.\<close>

definition receiveStep :: "'v state \<Rightarrow> 'v state option" where
  "receiveStep s =
     (case ch s of
        [] \<Rightarrow> None
      | gr # rest \<Rightarrow> Some (s\<lparr>ch := rest, received := received s @ [gr]\<rparr>))"

fun step :: "'v Group \<Rightarrow> event \<Rightarrow> 'v state \<Rightarrow> 'v state option" where
  "step tg (Worker i) s = workerStep tg i s"
| "step tg (SelectSend i) s = selectSend tg i s"
| "step tg (SelectDone i) s = selectDone tg i s"
| "step tg (Recover i dump) s = recoverStep tg i dump s"
| "step tg WgWait s = waiterStep s"
| "step tg Deadline s = deadlineStep tg s"
| "step tg Collector s = collectorStep tg s"
| "step tg Receive s = receiveStep s"

text \<open>\<^verbatim>\<open>run\<close> (lines 273-313) starts one worker per task.\<close>

definition run :: "'v Group \<Rightarrow> 'v worker list" where
  "run tg = map (\<lambda>t. Running) (tasks tg)"

text \<open>
  \<^verbatim>\<open>ExecChan\<close> (lines 218-253): the state in which it returns \<^verbatim>\<open>ch\<close>. When \<open>check\<close>
  fails the outcome is in the buffer of \<open>ch\<close> and no goroutine exists.
\<close>

definition ExecChan :: "'v Group \<Rightarrow> 'v state" where
  "ExecChan tg =
     (case check tg of
        Some e \<Rightarrow>
          \<lparr>workers = [], ctxDone = False, retChan = [], retChanClosed = False, wg = 0,
           waiter = WNotLaunched, collector = NotLaunched,
           ch = [\<lparr>Results = [], GroupError = Some e\<rparr>], chClosed = False, received = [],
           log = [], timeoutCalls = [], delivery = []\<rparr>
      | None \<Rightarrow>
          \<lparr>workers = run tg, ctxDone = takeContext tg, retChan = [], retChanClosed = False,
           wg = int (length (tasks tg)), waiter = Waiting, collector = AtCancel,
           ch = [], chClosed = False, received = [],
           log = [], timeoutCalls = [], delivery = []\<rparr>)"

text \<open>A schedule is a list of events; \<open>exec\<close> runs it, \<open>None\<close> when an event cannot happen.\<close>

fun exec :: "'v Group \<Rightarrow> event list \<Rightarrow> 'v state \<Rightarrow> 'v state option" where
  "exec tg [] s = Some s"
| "exec tg (e # es) s = (case step tg e s of None \<Rightarrow> None | Some s' \<Rightarrow> exec tg es s')"

inductive reachable :: "'v Group \<Rightarrow> 'v state \<Rightarrow> bool" for tg :: "'v Group" where
  start: "reachable tg (ExecChan tg)"
| next_state: "reachable tg s \<Longrightarrow> step tg e s = Some s' \<Longrightarrow> reachable tg s'"

text \<open>
  \<^verbatim>\<open>Execute\<close> of a group (lines 213-216): what the blocking caller gets once it has
  received from the channel.
\<close>

definition GroupExecute :: "'v state \<Rightarrow> ('v Result list \<times> error) option" where
  "GroupExecute s =
     (case received s of [] \<Rightarrow> None | grs # rest \<Rightarrow> Some (Results grs, GroupError grs))"

section \<open>Observations and invariants of a run\<close>

text \<open>The position of the collecting goroutine in its code, as a number.\<close>

fun phase :: "'v collector \<Rightarrow> nat" where
  "phase NotLaunched = 0"
| "phase AtCancel = 1"
| "phase AtWait = 2"
| "phase AtClose = 3"
| "phase (Draining rs) = 4"
| "phase (AtSend rs) = 5"
| "phase AtDeferCancel = 6"
| "phase AtDeferClose = 7"
| "phase Returned = 8"

text \<open>The local slice \<^verbatim>\<open>results\<close> of \<^verbatim>\<open>collectResults\<close>, where it exists.\<close>

fun collected :: "'v collector \<Rightarrow> 'v Result list" where
  "collected (Draining rs) = rs"
| "collected (AtSend rs) = rs"
| "collected c = []"

text \<open>The \<^verbatim>\<open>Result\<close> that line 296 builds for task \<open>i\<close>, when its \<^verbatim>\<open>Execute\<close> returns.\<close>

definition resultOf :: "'v Group \<Rightarrow> nat \<Rightarrow> 'v Result option" where
  "resultOf tg i =
     (if i < length (tasks tg)
      then (case Execute (tasks tg ! i) of
              Returns v e \<Rightarrow> Some \<lparr>Value = v, Error = e\<rparr>
            | Panics r \<Rightarrow> None
            | Hangs \<Rightarrow> None)
      else None)"

definition callsOf :: "nat \<Rightarrow> 'v state \<Rightarrow> (nat \<times> 'v \<times> error) list" where
  "callsOf i s = filter (\<lambda>c. fst c = i) (timeoutCalls s)"

definition logsOf :: "nat \<Rightarrow> 'v state \<Rightarrow> LogEntry list" where
  "logsOf i s = filter (\<lambda>l. data_i l = i) (log s)"

text \<open>The entry that lines 285-290 log for worker \<open>i\<close>, panic value \<open>r\<close> and stack dump.\<close>

definition panicEntry :: "'v Group \<Rightarrow> nat \<Rightarrow> string \<Rightarrow> string \<Rightarrow> LogEntry" where
  "panicEntry tg i r dump =
     \<lparr>message = ''task run error'', err = Some r, data_name = name tg, data_i = i,
      data_stack = trimStack dump\<rparr>"

text \<open>Everything ever sent on the returned channel: received already, or still buffered.\<close>

definition sent :: "'v state \<Rightarrow> 'v GroupResult list" where
  "sent s = received s @ ch s"

definition pending :: "'v worker list \<Rightarrow> nat" where
  "pending ws = length (filter (\<lambda>w. w \<noteq> Exited) ws)"

text \<open>The wait group counts the workers that have not run their deferred \<^verbatim>\<open>Done\<close>.\<close>

definition inv_wg :: "'v Group \<Rightarrow> 'v state \<Rightarrow> bool" where
  "inv_wg tg s =
     (length (workers s) = length (tasks tg) \<and> wg s = int (pending (workers s)))"

text \<open>The channels follow the collecting goroutine.\<close>

definition inv_collector :: "'v Group \<Rightarrow> 'v state \<Rightarrow> bool" where
  "inv_collector tg s =
     (1 \<le> phase (collector s) \<and> waiter s \<noteq> WNotLaunched
      \<and> retChanClosed s = (4 \<le> phase (collector s))
      \<and> chClosed s = (collector s = Returned)
      \<and> length (sent s) = (if 6 \<le> phase (collector s) then 1 else 0)
      \<and> (\<forall>gr \<in> set (sent s). GroupError gr = None)
      \<and> (2 \<le> phase (collector s) \<and> \<not> isTimeout tg \<longrightarrow> ctxDone s))"

text \<open>What the collection channel holds, and what becomes of it.\<close>

definition inv_delivery :: "'v Group \<Rightarrow> 'v state \<Rightarrow> bool" where
  "inv_delivery tg s =
     (distinct (delivery s)
      \<and> (\<forall>i \<in> set (delivery s).
            i < length (tasks tg) \<and> resultOf tg i \<noteq> None
            \<and> (workers s ! i = Finishing \<or> workers s ! i = Exited))
      \<and> (\<forall>i < length (workers s). \<forall>ret.
            workers s ! i = Checking ret \<or> workers s ! i = Racing ret
            \<longrightarrow> resultOf tg i = Some ret)
      \<and> (phase (collector s) \<le> 5 \<longrightarrow>
            map Some (collected (collector s) @ retChan s) = map (resultOf tg) (delivery s))
      \<and> (\<forall>rs. collector s = Draining rs \<longrightarrow> collectResult tg)
      \<and> (\<forall>rs. collector s = AtSend rs \<longrightarrow>
            (if collectResult tg then retChan s = [] else rs = []))
      \<and> (6 \<le> phase (collector s) \<longrightarrow>
            (\<forall>gr \<in> set (sent s).
               if collectResult tg then map Some (Results gr) = map (resultOf tg) (delivery s)
               else Results gr = [])))"

text \<open>A worker whose task panics: where it can be, and what it has logged.\<close>

definition inv_panic :: "'v Group \<Rightarrow> 'v state \<Rightarrow> bool" where
  "inv_panic tg s =
     (\<forall>i < length (tasks tg). \<forall>r. Execute (tasks tg ! i) = Panics r \<longrightarrow>
        callsOf i s = [] \<and>
        ((workers s ! i = Running \<or> workers s ! i = Recovering r) \<and> logsOf i s = []
         \<or> (workers s ! i = Finishing \<or> workers s ! i = Exited)
            \<and> (\<exists>dump. logsOf i s = [panicEntry tg i r dump])))"

text \<open>The calls of \<^verbatim>\<open>TimeoutHandler\<close>: at most one per task, with the task's own pair.\<close>

definition inv_calls :: "'v Group \<Rightarrow> 'v state \<Rightarrow> bool" where
  "inv_calls tg s =
     (\<forall>i < length (tasks tg).
        (callsOf i s = [] \<or>
           (\<exists>ret. resultOf tg i = Some ret \<and> TaskTimeout (tasks tg ! i)
                  \<and> callsOf i s = [(i, Value ret, Error ret)]
                  \<and> (workers s ! i = Finishing \<or> workers s ! i = Exited)
                  \<and> i \<notin> set (delivery s)))
        \<and> (workers s ! i = Running \<or> (\<exists>ret. workers s ! i = Checking ret)
              \<or> (\<exists>ret. workers s ! i = Racing ret)
            \<longrightarrow> callsOf i s = [] \<and> i \<notin> set (delivery s)))"

text \<open>
  The collection channel is closed only after the context is done or every worker has
  exited: \<^verbatim>\<open>done\<close> is closed when the wait group is at zero.
\<close>

definition inv_close :: "'v Group \<Rightarrow> 'v state \<Rightarrow> bool" where
  "inv_close tg s =
     ((waiter s = DoneClosed \<longrightarrow> pending (workers s) = 0)
      \<and> (3 \<le> phase (collector s) \<longrightarrow> ctxDone s \<or> pending (workers s) = 0))"

text \<open>
  A bound on the events the collecting goroutine still needs before it returns, counting
  one firing of the deadline while it waits.
\<close>

definition todo :: "'v state \<Rightarrow> nat" where
  "todo s =
     (case collector s of
        NotLaunched \<Rightarrow> 0
      | AtCancel \<Rightarrow> length (retChan s) + 9
      | AtWait \<Rightarrow> length (retChan s) + 7 + (if ctxDone s \<or> waiter s = DoneClosed then 0 else 1)
      | AtClose \<Rightarrow> length (retChan s) + 6
      | Draining rs \<Rightarrow> length (retChan s) + 5
      | AtSend rs \<Rightarrow> 3
      | AtDeferCancel \<Rightarrow> 2
      | AtDeferClose \<Rightarrow> 1
      | Returned \<Rightarrow> 0)"

text \<open>A schedule in which no worker moves: only the collecting goroutine and the deadline.\<close>

definition collectorOnly :: "event list \<Rightarrow> bool" where
  "collectorOnly es = (set es \<subseteq> {Collector, Deadline})"

text \<open>
  Worker \<open>i\<close> meets a context that is done already at its first \<^verbatim>\<open>select\<close>: it has
  not sent, it is never at the inner \<^verbatim>\<open>select\<close>, and once it is past the outer one the
  timeout handler of a task that has one has been called.
\<close>

definition routed :: "'v Group \<Rightarrow> nat \<Rightarrow> 'v state \<Rightarrow> bool" where
  "routed tg i s =
     (ctxDone s \<and> i \<notin> set (delivery s) \<and>
      (workers s ! i = Running
       \<or> (\<exists>ret. workers s ! i = Checking ret)
       \<or> (\<exists>r. workers s ! i = Recovering r) \<and> resultOf tg i = None
       \<or> (workers s ! i = Finishing \<or> workers s ! i = Exited)
          \<and> (TaskTimeout (tasks tg ! i) \<and> resultOf tg i \<noteq> None \<longrightarrow> callsOf i s \<noteq> [])))"

subsection \<open>Example groups\<close>

text \<open>No option, no task.\<close>

definition demoEmpty :: "nat Group" where
  "demoEmpty = NewTaskGroup ''demo'' []"

text \<open>Collection on, no timeout, one task.\<close>

definition demoUntimed :: "nat Group" where
  "demoUntimed = AddTaskFunc (Returns 7 None) (NewTaskGroup ''demo'' [WithCollectRet])"

text \<open>A timeout of one nanosecond, collection on, one task with a timeout handler.\<close>

definition demoOne :: "nat Group" where
  "demoOne =
     AddTask \<lparr>Execute = Returns 7 None, TaskTimeout = True\<rparr>
       (NewTaskGroup ''demo'' [WithDuration 1, WithCollectRet])"

text \<open>The same with two tasks, the second one returning an error of its own.\<close>

definition demoTwo :: "nat Group" where
  "demoTwo =
     AddTasks [\<lparr>Execute = Returns 10 None, TaskTimeout = True\<rparr>,
               \<lparr>Execute = Returns 11 (Some ''failed''), TaskTimeout = False\<rparr>]
       (NewTaskGroup ''demo'' [WithDuration 1, WithCollectRet])"

text \<open>No timeout, no collection: one task with a timeout handler.\<close>

definition demoAsync :: "nat Group" where
  "demoAsync =
     AddTask \<lparr>Execute = Returns 7 None, TaskTimeout = True\<rparr> (NewTaskGroup ''demo'' [])"

text \<open>A timeout, collection on: a task that panics beside one that returns.\<close>

definition demoPanic :: "nat Group" where
  "demoPanic =
     AddTaskFunc (Returns 5 None)
       (AddTaskFunc (Panics ''boom'') (NewTaskGroup ''demo'' [WithDuration 1, WithCollectRet]))"

section \<open>Schedules and reachability\<close>

lemma exec_append:
  "exec tg (es @ fs) s = (case exec tg es s of None \<Rightarrow> None | Some s' \<Rightarrow> exec tg fs s')"
  by (induction es arbitrary: s) (auto split: option.splits)

lemma exec_reachable:
  "reachable tg s \<Longrightarrow> exec tg es s = Some s' \<Longrightarrow> reachable tg s'"
proof (induction es arbitrary: s)
  case Nil
  then show ?case by simp
next
  case (Cons e es)
  then show ?case
    by (auto split: option.splits intro: reachable.next_state)
qed

section \<open>The statements of each goroutine, case by case\<close>

lemma workerStep_cases:
  assumes "workerStep tg i s = Some s'"
  obtains
    (returns) v e where "launched tg i s" "workers s ! i = Running"
      "Execute (tasks tg ! i) = Returns v e"
      "s' = s\<lparr>workers := (workers s)[i := Checking \<lparr>Value = v, Error = e\<rparr>]\<rparr>"
  | (panics) r where "launched tg i s" "workers s ! i = Running"
      "Execute (tasks tg ! i) = Panics r"
      "s' = s\<lparr>workers := (workers s)[i := Recovering r]\<rparr>"
  | (late) ret where "launched tg i s" "workers s ! i = Checking ret" "ctxDone s"
      "s' = timeoutPath tg i ret s"
  | (early) ret where "launched tg i s" "workers s ! i = Checking ret" "\<not> ctxDone s"
      "s' = s\<lparr>workers := (workers s)[i := Racing ret]\<rparr>"
  | (finish) "launched tg i s" "workers s ! i = Finishing"
      "s' = s\<lparr>workers := (workers s)[i := Exited], wg := wg s - 1\<rparr>"
proof -
  from assms have L: "launched tg i s"
    unfolding workerStep_def by (simp split: if_splits)
  show thesis
  proof (cases "workers s ! i")
    case Running
    show thesis
    proof (cases "Execute (tasks tg ! i)")
      case (Returns v e)
      with assms L Running have "s' = s\<lparr>workers := (workers s)[i := Checking \<lparr>Value = v, Error = e\<rparr>]\<rparr>"
        unfolding workerStep_def by simp
      with L Running Returns show thesis by (rule returns)
    next
      case (Panics r)
      with assms L Running have "s' = s\<lparr>workers := (workers s)[i := Recovering r]\<rparr>"
        unfolding workerStep_def by simp
      with L Running Panics show thesis by (rule panics)
    next
      case Hangs
      with assms L Running show thesis unfolding workerStep_def by simp
    qed
  next
    case (Checking ret)
    show thesis
    proof (cases "ctxDone s")
      case True
      with assms L Checking have "s' = timeoutPath tg i ret s"
        unfolding workerStep_def by simp
      with L Checking True show thesis by (rule late)
    next
      case False
      with assms L Checking have "s' = s\<lparr>workers := (workers s)[i := Racing ret]\<rparr>"
        unfolding workerStep_def by simp
      with L Checking False show thesis by (rule early)
    qed
  next
    case (Racing ret)
    with assms L show thesis unfolding workerStep_def by simp
  next
    case (Recovering r)
    with assms L show thesis unfolding workerStep_def by simp
  next
    case Finishing
    with assms L have "s' = s\<lparr>workers := (workers s)[i := Exited], wg := wg s - 1\<rparr>"
      unfolding workerStep_def by simp
    with L Finishing show thesis by (rule finish)
  next
    case Exited
    with assms L show thesis unfolding workerStep_def by simp
  qed
qed

lemma selectSend_cases:
  assumes "selectSend tg i s = Some s'"
  obtains
    (closed) ret where "launched tg i s" "workers s ! i = Racing ret" "retChanClosed s"
      "s' = s\<lparr>workers := (workers s)[i := Recovering ''send on closed channel'']\<rparr>"
  | (buffered) ret where "launched tg i s" "workers s ! i = Racing ret" "\<not> retChanClosed s"
      "length (retChan s) < length (tasks tg)"
      "s' = s\<lparr>workers := (workers s)[i := Finishing], retChan := retChan s @ [ret],
               delivery := delivery s @ [i]\<rparr>"
proof -
  from assms have L: "launched tg i s"
    unfolding selectSend_def by (simp split: if_splits)
  from assms L obtain ret where R: "workers s ! i = Racing ret"
    unfolding selectSend_def by (cases "workers s ! i") simp_all
  show thesis
  proof (cases "retChanClosed s")
    case True
    with assms L R have "s' = s\<lparr>workers := (workers s)[i := Recovering ''send on closed channel'']\<rparr>"
      unfolding selectSend_def by simp
    with L R True show thesis by (rule closed)
  next
    case False
    with assms L R have room: "length (retChan s) < length (tasks tg)"
      unfolding selectSend_def by (simp split: if_splits)
    with assms L R False have "s' = s\<lparr>workers := (workers s)[i := Finishing], retChan := retChan s @ [ret],
               delivery := delivery s @ [i]\<rparr>"
      unfolding selectSend_def by simp
    with L R False room show thesis by (rule buffered)
  qed
qed

lemma selectDone_cases:
  assumes "selectDone tg i s = Some s'"
  obtains ret where "launched tg i s" "workers s ! i = Racing ret" "ctxDone s"
      "s' = timeoutPath tg i ret s"
proof -
  from assms have L: "launched tg i s"
    unfolding selectDone_def by (simp split: if_splits)
  from assms L obtain ret where R: "workers s ! i = Racing ret"
    unfolding selectDone_def by (cases "workers s ! i") simp_all
  from assms L R have D: "ctxDone s"
    unfolding selectDone_def by (simp split: if_splits)
  with assms L R have "s' = timeoutPath tg i ret s"
    unfolding selectDone_def by simp
  with L R D show thesis by (rule that)
qed

lemma recoverStep_cases:
  assumes "recoverStep tg i dump s = Some s'"
  obtains r where "launched tg i s" "workers s ! i = Recovering r"
      "s' = s\<lparr>workers := (workers s)[i := Finishing], log := log s @ [panicEntry tg i r dump]\<rparr>"
proof -
  from assms have L: "launched tg i s"
    unfolding recoverStep_def by (simp split: if_splits)
  from assms L obtain r where R: "workers s ! i = Recovering r"
    unfolding recoverStep_def by (cases "workers s ! i") simp_all
  with assms L have "s' = s\<lparr>workers := (workers s)[i := Finishing], log := log s @ [panicEntry tg i r dump]\<rparr>"
    unfolding recoverStep_def panicEntry_def by simp
  with L R show thesis by (rule that)
qed

lemma collectorStep_cases:
  assumes "collectorStep tg s = Some s'"
  obtains
    (cancel) "collector s = AtCancel"
      "s' = s\<lparr>collector := AtWait, ctxDone := (if \<not> isTimeout tg then True else ctxDone s)\<rparr>"
  | (wait) "collector s = AtWait" "ctxDone s \<or> waiter s = DoneClosed"
      "s' = s\<lparr>collector := AtClose\<rparr>"
  | (close) "collector s = AtClose"
      "s' = s\<lparr>retChanClosed := True,
               collector := (if \<not> collectResult tg then AtSend [] else Draining [])\<rparr>"
  | (drain) rs r rest where "collector s = Draining rs" "retChan s = r # rest"
      "s' = s\<lparr>retChan := rest, collector := Draining (rs @ [r])\<rparr>"
  | (drained) rs where "collector s = Draining rs" "retChan s = []" "retChanClosed s"
      "s' = s\<lparr>collector := AtSend rs\<rparr>"
  | (send) rs where "collector s = AtSend rs" "ch s = []"
      "s' = s\<lparr>ch := [\<lparr>Results = rs, GroupError = None\<rparr>], collector := AtDeferCancel\<rparr>"
  | (defer_cancel) "collector s = AtDeferCancel"
      "s' = s\<lparr>ctxDone := True, collector := AtDeferClose\<rparr>"
  | (defer_close) "collector s = AtDeferClose"
      "s' = s\<lparr>chClosed := True, collector := Returned\<rparr>"
proof (cases "collector s")
  case NotLaunched
  with assms show thesis unfolding collectorStep_def by simp
next
  case AtCancel
  with assms have "s' = s\<lparr>collector := AtWait, ctxDone := (if \<not> isTimeout tg then True else ctxDone s)\<rparr>"
    unfolding collectorStep_def by simp
  with AtCancel show thesis by (rule cancel)
next
  case AtWait
  with assms have r: "ctxDone s \<or> waiter s = DoneClosed"
    unfolding collectorStep_def by (simp split: if_splits)
  with assms AtWait have "s' = s\<lparr>collector := AtClose\<rparr>"
    unfolding collectorStep_def by (simp split: if_splits)
  with AtWait r show thesis by (rule wait)
next
  case AtClose
  with assms have "s' = s\<lparr>retChanClosed := True,
               collector := (if \<not> collectResult tg then AtSend [] else Draining [])\<rparr>"
    unfolding collectorStep_def by simp
  with AtClose show thesis by (rule close)
next
  case (Draining rs)
  show thesis
  proof (cases "retChan s")
    case Nil
    with assms Draining have c: "retChanClosed s"
      unfolding collectorStep_def by (simp split: if_splits)
    with assms Draining Nil have "s' = s\<lparr>collector := AtSend rs\<rparr>"
      unfolding collectorStep_def by simp
    with Draining Nil c show thesis by (rule drained)
  next
    case (Cons r rest)
    with assms Draining have "s' = s\<lparr>retChan := rest, collector := Draining (rs @ [r])\<rparr>"
      unfolding collectorStep_def by simp
    with Draining Cons show thesis by (rule drain)
  qed
next
  case (AtSend rs)
  with assms have e: "ch s = []"
    unfolding collectorStep_def by (simp split: if_splits)
  with assms AtSend have "s' = s\<lparr>ch := [\<lparr>Results = rs, GroupError = None\<rparr>], collector := AtDeferCancel\<rparr>"
    unfolding collectorStep_def by simp
  with AtSend e show thesis by (rule send)
next
  case AtDeferCancel
  with assms have "s' = s\<lparr>ctxDone := True, collector := AtDeferClose\<rparr>"
    unfolding collectorStep_def by simp
  with AtDeferCancel show thesis by (rule defer_cancel)
next
  case AtDeferClose
  with assms have "s' = s\<lparr>chClosed := True, collector := Returned\<rparr>"
    unfolding collectorStep_def by simp
  with AtDeferClose show thesis by (rule defer_close)
next
  case Returned
  with assms show thesis unfolding collectorStep_def by simp
qed

lemma waiterStep_cases:
  assumes "waiterStep s = Some s'"
  obtains "waiter s = Waiting" "wg s = 0" "s' = s\<lparr>waiter := DoneClosed\<rparr>"
  using assms unfolding waiterStep_def by (simp split: if_splits)

lemma deadlineStep_cases:
  assumes "deadlineStep tg s = Some s'"
  obtains "canFire tg" "collector s \<noteq> NotLaunched" "s' = s\<lparr>ctxDone := True\<rparr>"
  using assms unfolding deadlineStep_def by (simp split: if_splits)

lemma receiveStep_cases:
  assumes "receiveStep s = Some s'"
  obtains gr rest where "ch s = gr # rest" "s' = s\<lparr>ch := rest, received := received s @ [gr]\<rparr>"
  using assms unfolding receiveStep_def by (cases "ch s") simp_all

section \<open>The invariants hold in every state of a run\<close>

lemma pending_keep:
  "i < length ws \<Longrightarrow> ws ! i \<noteq> Exited \<Longrightarrow> w \<noteq> Exited \<Longrightarrow> pending (ws[i := w]) = pending ws"
  unfolding pending_def
  by (induction ws arbitrary: i) (auto split: nat.splits)

lemma pending_exit:
  "i < length ws \<Longrightarrow> ws ! i \<noteq> Exited \<Longrightarrow> Suc (pending (ws[i := Exited])) = pending ws"
  unfolding pending_def
  by (induction ws arbitrary: i) (auto split: nat.splits)

lemma pending_zero_Exited:
  "pending ws = 0 \<Longrightarrow> i < length ws \<Longrightarrow> ws ! i = Exited"
  unfolding pending_def
  by (induction ws arbitrary: i) (auto split: if_splits nat.splits simp: nth_Cons')

lemma pending_run: "pending (run tg) = length (tasks tg)"
  by (simp add: pending_def run_def)

lemma nth_run: "i < length (tasks tg) \<Longrightarrow> run tg ! i = Running"
  by (simp add: run_def)

lemma resultOf_Returns:
  "i < length (tasks tg) \<Longrightarrow> Execute (tasks tg ! i) = Returns v e \<Longrightarrow>
   resultOf tg i = Some \<lparr>Value = v, Error = e\<rparr>"
  by (simp add: resultOf_def)

lemma resultOf_SomeD:
  "resultOf tg i = Some r \<Longrightarrow> i < length (tasks tg) \<and> Execute (tasks tg ! i) = Returns (Value r) (Error r)"
  by (auto simp add: resultOf_def split: if_splits outcome.splits)

lemma data_i_panicEntry [simp]: "data_i (panicEntry tg i r dump) = i"
  by (simp add: panicEntry_def)

lemma inv_wg_step:
  assumes I: "inv_wg tg s" and S: "step tg ev s = Some s'"
  shows "inv_wg tg s'"
proof (cases ev)
  case (Worker i)
  with S have "workerStep tg i s = Some s'" by simp
  then show ?thesis
  proof (cases rule: workerStep_cases)
    case finish
    with I pending_exit[of i "workers s"] show ?thesis
      by (simp add: inv_wg_def launched_def)
  qed (use I in \<open>simp_all add: inv_wg_def launched_def timeoutPath_def pending_keep\<close>)
next
  case (SelectSend i)
  with S have "selectSend tg i s = Some s'" by simp
  then show ?thesis
    by (cases rule: selectSend_cases)
       (use I in \<open>simp_all add: inv_wg_def launched_def pending_keep\<close>)
next
  case (SelectDone i)
  with S have "selectDone tg i s = Some s'" by simp
  then show ?thesis
    by (cases rule: selectDone_cases)
       (use I in \<open>simp_all add: inv_wg_def launched_def timeoutPath_def pending_keep\<close>)
next
  case (Recover i dump)
  with S have "recoverStep tg i dump s = Some s'" by simp
  then show ?thesis
    by (cases rule: recoverStep_cases)
       (use I in \<open>simp_all add: inv_wg_def launched_def pending_keep\<close>)
next
  case WgWait
  with S have "waiterStep s = Some s'" by simp
  then show ?thesis
    by (cases rule: waiterStep_cases) (use I in \<open>simp add: inv_wg_def\<close>)
next
  case Deadline
  with S have "deadlineStep tg s = Some s'" by simp
  then show ?thesis
    by (cases rule: deadlineStep_cases) (use I in \<open>simp add: inv_wg_def\<close>)
next
  case Collector
  with S have "collectorStep tg s = Some s'" by simp
  then show ?thesis
    by (cases rule: collectorStep_cases) (use I in \<open>simp_all add: inv_wg_def\<close>)
next
  case Receive
  with S have "receiveStep s = Some s'" by simp
  then show ?thesis
    by (cases rule: receiveStep_cases) (use I in \<open>simp add: inv_wg_def\<close>)
qed

lemma inv_collector_step:
  assumes I: "inv_collector tg s" and S: "step tg ev s = Some s'"
  shows "inv_collector tg s'"
proof (cases ev)
  case (Worker i)
  with S have "workerStep tg i s = Some s'" by simp
  then show ?thesis
    by (cases rule: workerStep_cases)
       (use I in \<open>simp_all add: inv_collector_def sent_def timeoutPath_def\<close>)
next
  case (SelectSend i)
  with S have "selectSend tg i s = Some s'" by simp
  then show ?thesis
    by (cases rule: selectSend_cases)
       (use I in \<open>simp_all add: inv_collector_def sent_def\<close>)
next
  case (SelectDone i)
  with S have "selectDone tg i s = Some s'" by simp
  then show ?thesis
    by (cases rule: selectDone_cases)
       (use I in \<open>simp_all add: inv_collector_def sent_def timeoutPath_def\<close>)
next
  case (Recover i dump)
  with S have "recoverStep tg i dump s = Some s'" by simp
  then show ?thesis
    by (cases rule: recoverStep_cases)
       (use I in \<open>simp_all add: inv_collector_def sent_def\<close>)
next
  case WgWait
  with S have "waiterStep s = Some s'" by simp
  then show ?thesis
    by (cases rule: waiterStep_cases) (use I in \<open>simp add: inv_collector_def sent_def\<close>)
next
  case Deadline
  with S have "deadlineStep tg s = Some s'" by simp
  then show ?thesis
    by (cases rule: deadlineStep_cases) (use I in \<open>simp add: inv_collector_def sent_def\<close>)
next
  case Collector
  with S have "collectorStep tg s = Some s'" by simp
  then show ?thesis
    by (cases rule: collectorStep_cases)
       (use I in \<open>auto simp add: inv_collector_def sent_def\<close>)
next
  case Receive
  with S have "receiveStep s = Some s'" by simp
  then show ?thesis
    by (cases rule: receiveStep_cases) (use I in \<open>auto simp add: inv_collector_def sent_def\<close>)
qed

lemma inv_delivery_worker:
  assumes I: "inv_delivery tg s" and S: "workerStep tg i s = Some s'"
  shows "inv_delivery tg s'"
  using S
proof (cases rule: workerStep_cases)
  case (returns v e)
  then show ?thesis using I
    by (auto simp add: inv_delivery_def launched_def nth_list_update resultOf_Returns sent_def)
next
  case (panics r)
  then show ?thesis using I
    by (auto simp add: inv_delivery_def launched_def nth_list_update sent_def)
next
  case (late ret)
  then show ?thesis using I
    by (auto simp add: inv_delivery_def launched_def nth_list_update timeoutPath_def sent_def)
next
  case (early ret)
  then show ?thesis using I
    by (auto simp add: inv_delivery_def launched_def nth_list_update sent_def)
next
  case finish
  then show ?thesis using I
    by (auto simp add: inv_delivery_def launched_def nth_list_update sent_def)
qed

lemma inv_delivery_step:
  assumes I: "inv_delivery tg s" and C: "inv_collector tg s" and S: "step tg ev s = Some s'"
  shows "inv_delivery tg s'"
proof (cases ev)
  case (Worker i)
  with S I show ?thesis by (simp add: inv_delivery_worker)
next
  case (SelectSend i)
  with S have "selectSend tg i s = Some s'" by simp
  then show ?thesis
  proof (cases rule: selectSend_cases)
    case (closed ret)
    then show ?thesis using I
      by (auto simp add: inv_delivery_def launched_def nth_list_update sent_def)
  next
    case (buffered ret)
    with C have ph: "phase (collector s) < 4" by (simp add: inv_collector_def)
    from buffered I have r: "resultOf tg i = Some ret" and n: "i \<notin> set (delivery s)"
      by (auto simp add: inv_delivery_def launched_def)
    have c: "collector s' = collector s" "sent s' = sent s" using buffered by (simp_all add: sent_def)
    from ph have nd: "\<And>rs. collector s \<noteq> AtSend rs" "\<And>rs. collector s \<noteq> Draining rs"
      by auto
    show ?thesis
      unfolding inv_delivery_def c
      using I ph n r nd buffered(1,2)
      by (auto simp add: inv_delivery_def buffered(5) launched_def nth_list_update)
  qed
next
  case (SelectDone i)
  with S have "selectDone tg i s = Some s'" by simp
  then show ?thesis
    by (cases rule: selectDone_cases)
       (use I in \<open>auto simp add: inv_delivery_def launched_def nth_list_update timeoutPath_def sent_def\<close>)
next
  case (Recover i dump)
  with S have "recoverStep tg i dump s = Some s'" by simp
  then show ?thesis
    by (cases rule: recoverStep_cases)
       (use I in \<open>auto simp add: inv_delivery_def launched_def nth_list_update sent_def\<close>)
next
  case WgWait
  with S have "waiterStep s = Some s'" by simp
  then show ?thesis
    by (cases rule: waiterStep_cases) (use I in \<open>simp add: inv_delivery_def sent_def\<close>)
next
  case Deadline
  with S have "deadlineStep tg s = Some s'" by simp
  then show ?thesis
    by (cases rule: deadlineStep_cases) (use I in \<open>simp add: inv_delivery_def sent_def\<close>)
next
  case Collector
  with S have "collectorStep tg s = Some s'" by simp
  then show ?thesis
  proof (cases rule: collectorStep_cases)
    case (send rs)
    with C have "sent s = []" by (simp add: inv_collector_def)
    with send have "sent s' = [\<lparr>Results = rs, GroupError = None\<rparr>]" by (simp add: sent_def)
    with send I show ?thesis
      by (auto simp add: inv_delivery_def)
  qed (use I in \<open>auto simp add: inv_delivery_def sent_def\<close>)
next
  case Receive
  with S have "receiveStep s = Some s'" by simp
  then show ?thesis
    by (cases rule: receiveStep_cases) (use I in \<open>auto simp add: inv_delivery_def sent_def\<close>)
qed

lemma inv_panic_step:
  assumes I: "inv_panic tg s" and S: "step tg ev s = Some s'"
  shows "inv_panic tg s'"
proof (cases ev)
  case (Worker i)
  with S have "workerStep tg i s = Some s'" by simp
  then show ?thesis
    by (cases rule: workerStep_cases)
       (use I in \<open>auto simp add: inv_panic_def launched_def nth_list_update timeoutPath_def
          callsOf_def logsOf_def\<close>)
next
  case (SelectSend i)
  with S have "selectSend tg i s = Some s'" by simp
  then show ?thesis
    by (cases rule: selectSend_cases)
       (use I in \<open>auto simp add: inv_panic_def launched_def nth_list_update callsOf_def logsOf_def\<close>)
next
  case (SelectDone i)
  with S have "selectDone tg i s = Some s'" by simp
  then show ?thesis
    by (cases rule: selectDone_cases)
       (use I in \<open>auto simp add: inv_panic_def launched_def nth_list_update timeoutPath_def
          callsOf_def logsOf_def\<close>)
next
  case (Recover i dump)
  with S have "recoverStep tg i dump s = Some s'" by simp
  then show ?thesis
  proof (cases rule: recoverStep_cases)
    case (1 r)
    show ?thesis
      unfolding inv_panic_def
    proof (intro allI impI)
      fix j r0
      assume j: "j < length (tasks tg)" and P: "Execute (tasks tg ! j) = Panics r0"
      with I have old: "callsOf j s = []"
        "(workers s ! j = Running \<or> workers s ! j = Recovering r0) \<and> logsOf j s = []
         \<or> (workers s ! j = Finishing \<or> workers s ! j = Exited)
            \<and> (\<exists>dump. logsOf j s = [panicEntry tg j r0 dump])"
        by (simp_all add: inv_panic_def)
      show "callsOf j s' = [] \<and>
        ((workers s' ! j = Running \<or> workers s' ! j = Recovering r0) \<and> logsOf j s' = []
         \<or> (workers s' ! j = Finishing \<or> workers s' ! j = Exited)
            \<and> (\<exists>dump. logsOf j s' = [panicEntry tg j r0 dump]))"
      proof (cases "j = i")
        case True
        with old 1 have "r0 = r" "logsOf i s = []" by auto
        with True 1 old(1) show ?thesis
          by (auto simp add: launched_def callsOf_def logsOf_def)
      next
        case False
        with 1 old show ?thesis
          by (simp add: launched_def callsOf_def logsOf_def)
      qed
    qed
  qed
next
  case WgWait
  with S have "waiterStep s = Some s'" by simp
  then show ?thesis
    by (cases rule: waiterStep_cases)
       (use I in \<open>simp add: inv_panic_def callsOf_def logsOf_def\<close>)
next
  case Deadline
  with S have "deadlineStep tg s = Some s'" by simp
  then show ?thesis
    by (cases rule: deadlineStep_cases)
       (use I in \<open>simp add: inv_panic_def callsOf_def logsOf_def\<close>)
next
  case Collector
  with S have "collectorStep tg s = Some s'" by simp
  then show ?thesis
    by (cases rule: collectorStep_cases)
       (use I in \<open>simp_all add: inv_panic_def callsOf_def logsOf_def\<close>)
next
  case Receive
  with S have "receiveStep s = Some s'" by simp
  then show ?thesis
    by (cases rule: receiveStep_cases)
       (use I in \<open>simp add: inv_panic_def callsOf_def logsOf_def\<close>)
qed

lemma inv_calls_timeoutPath:
  assumes I: "inv_calls tg s" and D: "inv_delivery tg s" and L: "launched tg i s"
    and W: "workers s ! i = Checking ret \<or> workers s ! i = Racing ret"
  shows "inv_calls tg (timeoutPath tg i ret s)"
proof -
  from D L W have r: "resultOf tg i = Some ret"
    by (auto simp add: inv_delivery_def launched_def)
  from I L W have c: "callsOf i s = []" "i \<notin> set (delivery s)"
    by (auto simp add: inv_calls_def launched_def)
  from I r c L show ?thesis
    by (auto simp add: inv_calls_def timeoutPath_def callsOf_def launched_def nth_list_update)
qed

lemma inv_calls_step:
  assumes I: "inv_calls tg s" and D: "inv_delivery tg s" and S: "step tg ev s = Some s'"
  shows "inv_calls tg s'"
proof (cases ev)
  case (Worker i)
  with S have "workerStep tg i s = Some s'" by simp
  then show ?thesis
  proof (cases rule: workerStep_cases)
    case (late ret)
    with I D show ?thesis by (simp add: inv_calls_timeoutPath)
  qed (use I in \<open>auto simp add: inv_calls_def launched_def nth_list_update callsOf_def\<close>)
next
  case (SelectSend i)
  with S have "selectSend tg i s = Some s'" by simp
  then show ?thesis
    by (cases rule: selectSend_cases)
       (use I in \<open>auto simp add: inv_calls_def launched_def nth_list_update callsOf_def\<close>)
next
  case (SelectDone i)
  with S have "selectDone tg i s = Some s'" by simp
  then show ?thesis
  proof (cases rule: selectDone_cases)
    case (1 ret)
    with I D show ?thesis by (simp add: inv_calls_timeoutPath)
  qed
next
  case (Recover i dump)
  with S have "recoverStep tg i dump s = Some s'" by simp
  then show ?thesis
    by (cases rule: recoverStep_cases)
       (use I in \<open>auto simp add: inv_calls_def launched_def nth_list_update callsOf_def\<close>)
next
  case WgWait
  with S have "waiterStep s = Some s'" by simp
  then show ?thesis
    by (cases rule: waiterStep_cases) (use I in \<open>simp add: inv_calls_def callsOf_def\<close>)
next
  case Deadline
  with S have "deadlineStep tg s = Some s'" by simp
  then show ?thesis
    by (cases rule: deadlineStep_cases) (use I in \<open>simp add: inv_calls_def callsOf_def\<close>)
next
  case Collector
  with S have "collectorStep tg s = Some s'" by simp
  then show ?thesis
    by (cases rule: collectorStep_cases) (use I in \<open>simp_all add: inv_calls_def callsOf_def\<close>)
next
  case Receive
  with S have "receiveStep s = Some s'" by simp
  then show ?thesis
    by (cases rule: receiveStep_cases) (use I in \<open>simp add: inv_calls_def callsOf_def\<close>)
qed

lemma ExecChan_valid:
  "check tg = None \<Longrightarrow>
   ExecChan tg =
     \<lparr>workers = run tg, ctxDone = takeContext tg, retChan = [], retChanClosed = False,
      wg = int (length (tasks tg)), waiter = Waiting, collector = AtCancel,
      ch = [], chClosed = False, received = [],
      log = [], timeoutCalls = [], delivery = []\<rparr>"
  by (simp add: ExecChan_def)

lemma ExecChan_failed:
  "check tg = Some e \<Longrightarrow>
   ExecChan tg =
     \<lparr>workers = [], ctxDone = False, retChan = [], retChanClosed = False, wg = 0,
      waiter = WNotLaunched, collector = NotLaunched,
      ch = [\<lparr>Results = [], GroupError = Some e\<rparr>], chClosed = False, received = [],
      log = [], timeoutCalls = [], delivery = []\<rparr>"
  by (simp add: ExecChan_def)

lemma inv_wg_start: "check tg = None \<Longrightarrow> inv_wg tg (ExecChan tg)"
  by (simp add: ExecChan_valid inv_wg_def pending_run) (simp add: run_def)

lemma inv_collector_start: "check tg = None \<Longrightarrow> inv_collector tg (ExecChan tg)"
  by (simp add: ExecChan_valid inv_collector_def sent_def)

lemma inv_delivery_start: "check tg = None \<Longrightarrow> inv_delivery tg (ExecChan tg)"
  by (simp add: ExecChan_valid inv_delivery_def sent_def run_def)

lemma inv_panic_start: "check tg = None \<Longrightarrow> inv_panic tg (ExecChan tg)"
  by (simp add: ExecChan_valid inv_panic_def callsOf_def logsOf_def nth_run)

lemma inv_calls_start: "check tg = None \<Longrightarrow> inv_calls tg (ExecChan tg)"
  by (simp add: ExecChan_valid inv_calls_def callsOf_def)

lemma reachable_inv:
  assumes "check tg = None" and "reachable tg s"
  shows "inv_wg tg s \<and> inv_collector tg s \<and> inv_delivery tg s \<and> inv_panic tg s \<and> inv_calls tg s"
  using assms(2)
proof (induction rule: reachable.induct)
  case start
  with assms(1) show ?case
    by (simp add: inv_wg_start inv_collector_start inv_delivery_start inv_panic_start inv_calls_start)
next
  case (next_state s ev s')
  then show ?case
    by (simp add: inv_wg_step[of tg s ev] inv_collector_step[of tg s ev] inv_delivery_step[of tg s ev]
        inv_panic_step[of tg s ev] inv_calls_step[of tg s ev])
qed

lemma inv_close_step:
  assumes I: "inv_close tg s" and G: "inv_wg tg s" and S: "step tg ev s = Some s'"
  shows "inv_close tg s'"
proof (cases ev)
  case (Worker i)
  with S have "workerStep tg i s = Some s'" by simp
  then show ?thesis
    by (cases rule: workerStep_cases)
       (use I pending_zero_Exited[of "workers s" i] in
         \<open>auto simp add: inv_close_def launched_def timeoutPath_def\<close>)
next
  case (SelectSend i)
  with S have "selectSend tg i s = Some s'" by simp
  then show ?thesis
    by (cases rule: selectSend_cases)
       (use I pending_zero_Exited[of "workers s" i] in
         \<open>auto simp add: inv_close_def launched_def\<close>)
next
  case (SelectDone i)
  with S have "selectDone tg i s = Some s'" by simp
  then show ?thesis
    by (cases rule: selectDone_cases)
       (use I pending_zero_Exited[of "workers s" i] in
         \<open>auto simp add: inv_close_def launched_def timeoutPath_def\<close>)
next
  case (Recover i dump)
  with S have "recoverStep tg i dump s = Some s'" by simp
  then show ?thesis
    by (cases rule: recoverStep_cases)
       (use I pending_zero_Exited[of "workers s" i] in
         \<open>auto simp add: inv_close_def launched_def\<close>)
next
  case WgWait
  with S have "waiterStep s = Some s'" by simp
  then show ?thesis
    by (cases rule: waiterStep_cases) (use I G in \<open>simp add: inv_close_def inv_wg_def\<close>)
next
  case Deadline
  with S have "deadlineStep tg s = Some s'" by simp
  then show ?thesis
    by (cases rule: deadlineStep_cases) (use I in \<open>simp add: inv_close_def\<close>)
next
  case Collector
  with S have "collectorStep tg s = Some s'" by simp
  then show ?thesis
    by (cases rule: collectorStep_cases) (use I in \<open>auto simp add: inv_close_def\<close>)
next
  case Receive
  with S have "receiveStep s = Some s'" by simp
  then show ?thesis
    by (cases rule: receiveStep_cases) (use I in \<open>simp add: inv_close_def\<close>)
qed

lemma reachable_inv_close:
  assumes V: "check tg = None" and R: "reachable tg s"
  shows "inv_close tg s"
  using R
proof (induction rule: reachable.induct)
  case start
  then show ?case by (simp add: ExecChan_valid[OF V] inv_close_def)
next
  case (next_state s ev s')
  from V next_state.hyps(1) have "inv_wg tg s" by (simp add: reachable_inv)
  with next_state show ?case by (simp add: inv_close_step[of tg s ev])
qed

lemma failed_reachable:
  assumes "check tg = Some e" and "reachable tg s"
  shows "s = ExecChan tg \<or>
         s = (ExecChan tg)\<lparr>ch := [], received := [\<lparr>Results = [], GroupError = Some e\<rparr>]\<rparr>"
  using assms(2)
proof (induction rule: reachable.induct)
  case start
  then show ?case by simp
next
  case (next_state s ev s')
  have none: "workerStep tg i s = None" "selectSend tg i s = None" "selectDone tg i s = None"
    "recoverStep tg i dump s = None" "waiterStep s = None" "deadlineStep tg s = None"
    "collectorStep tg s = None" for i dump
    using next_state.IH assms(1)
    by (auto simp add: ExecChan_failed workerStep_def selectSend_def selectDone_def recoverStep_def
        waiterStep_def deadlineStep_def collectorStep_def launched_def)
  show ?case
  proof (cases ev)
    case Receive
    with next_state.hyps have "receiveStep s = Some s'" by simp
    then show ?thesis
      using next_state.IH assms(1)
      by (cases rule: receiveStep_cases) (auto simp add: ExecChan_failed)
  qed (use next_state.hyps none in simp_all)
qed

lemma routed_step:
  assumes I: "routed tg i s" and S: "step tg ev s = Some s'"
  shows "routed tg i s'"
proof (cases ev)
  case (Worker j)
  with S have "workerStep tg j s = Some s'" by simp
  then show ?thesis
    by (cases rule: workerStep_cases)
       (use I in \<open>auto simp add: routed_def launched_def nth_list_update timeoutPath_def
          callsOf_def resultOf_def\<close>)
next
  case (SelectSend j)
  with S have "selectSend tg j s = Some s'" by simp
  then show ?thesis
    by (cases rule: selectSend_cases)
       (use I in \<open>auto simp add: routed_def launched_def nth_list_update callsOf_def\<close>)
next
  case (SelectDone j)
  with S have "selectDone tg j s = Some s'" by simp
  then show ?thesis
    by (cases rule: selectDone_cases)
       (use I in \<open>auto simp add: routed_def launched_def nth_list_update timeoutPath_def callsOf_def\<close>)
next
  case (Recover j dump)
  with S have "recoverStep tg j dump s = Some s'" by simp
  then show ?thesis
    by (cases rule: recoverStep_cases)
       (use I in \<open>auto simp add: routed_def launched_def nth_list_update callsOf_def\<close>)
next
  case WgWait
  with S have "waiterStep s = Some s'" by simp
  then show ?thesis
    by (cases rule: waiterStep_cases) (use I in \<open>simp add: routed_def callsOf_def\<close>)
next
  case Deadline
  with S have "deadlineStep tg s = Some s'" by simp
  then show ?thesis
    by (cases rule: deadlineStep_cases) (use I in \<open>simp add: routed_def callsOf_def\<close>)
next
  case Collector
  with S have "collectorStep tg s = Some s'" by simp
  then show ?thesis
    by (cases rule: collectorStep_cases) (use I in \<open>simp_all add: routed_def callsOf_def\<close>)
next
  case Receive
  with S have "receiveStep s = Some s'" by simp
  then show ?thesis
    by (cases rule: receiveStep_cases) (use I in \<open>simp add: routed_def callsOf_def\<close>)
qed

lemma routed_exec:
  "routed tg i s \<Longrightarrow> exec tg es s = Some s' \<Longrightarrow> routed tg i s'"
proof (induction es arbitrary: s)
  case Nil
  then show ?case by simp
next
  case (Cons ev es)
  then show ?case
    by (auto split: option.splits dest: routed_step)
qed

section \<open>The collecting goroutine always gets to its end\<close>

lemma progress_step:
  assumes C: "inv_collector tg s" and N: "collector s \<noteq> Returned"
  shows "\<exists>ev s'. (ev = Collector \<or> ev = Deadline) \<and> step tg ev s = Some s' \<and> todo s' < todo s"
proof (cases "collector s")
  case NotLaunched
  with C show ?thesis by (simp add: inv_collector_def)
next
  case AtCancel
  then have "step tg Collector s = Some (s\<lparr>collector := AtWait,
      ctxDone := (if \<not> isTimeout tg then True else ctxDone s)\<rparr>)"
    by (simp add: collectorStep_def)
  moreover have "todo (s\<lparr>collector := AtWait,
      ctxDone := (if \<not> isTimeout tg then True else ctxDone s)\<rparr>) < todo s"
    using AtCancel by (simp add: todo_def)
  ultimately show ?thesis by blast
next
  case AtWait
  show ?thesis
  proof (cases "ctxDone s \<or> waiter s = DoneClosed")
    case True
    with AtWait have "step tg Collector s = Some (s\<lparr>collector := AtClose\<rparr>)"
      by (simp add: collectorStep_def)
    moreover have "todo (s\<lparr>collector := AtClose\<rparr>) < todo s"
      using AtWait by (simp add: todo_def)
    ultimately show ?thesis by blast
  next
    case False
    with C AtWait have "isTimeout tg" by (auto simp add: inv_collector_def)
    with AtWait have "step tg Deadline s = Some (s\<lparr>ctxDone := True\<rparr>)"
      by (simp add: deadlineStep_def canFire_def)
    moreover have "todo (s\<lparr>ctxDone := True\<rparr>) < todo s"
      using AtWait False by (simp add: todo_def)
    ultimately show ?thesis by blast
  qed
next
  case AtClose
  then have "step tg Collector s = Some (s\<lparr>retChanClosed := True,
      collector := (if \<not> collectResult tg then AtSend [] else Draining [])\<rparr>)"
    by (simp add: collectorStep_def)
  moreover have "todo (s\<lparr>retChanClosed := True,
      collector := (if \<not> collectResult tg then AtSend [] else Draining [])\<rparr>) < todo s"
    using AtClose by (simp add: todo_def)
  ultimately show ?thesis by blast
next
  case (Draining rs)
  show ?thesis
  proof (cases "retChan s")
    case Nil
    from C Draining have "retChanClosed s" by (simp add: inv_collector_def)
    with Draining Nil have "step tg Collector s = Some (s\<lparr>collector := AtSend rs\<rparr>)"
      by (simp add: collectorStep_def)
    moreover have "todo (s\<lparr>collector := AtSend rs\<rparr>) < todo s"
      using Draining by (simp add: todo_def)
    ultimately show ?thesis by blast
  next
    case (Cons r rest)
    with Draining have "step tg Collector s =
        Some (s\<lparr>retChan := rest, collector := Draining (rs @ [r])\<rparr>)"
      by (simp add: collectorStep_def)
    moreover have "todo (s\<lparr>retChan := rest, collector := Draining (rs @ [r])\<rparr>) < todo s"
      using Draining Cons by (simp add: todo_def)
    ultimately show ?thesis by blast
  qed
next
  case (AtSend rs)
  with C have "ch s = []" by (simp add: inv_collector_def sent_def)
  with AtSend have "step tg Collector s =
      Some (s\<lparr>ch := ch s @ [\<lparr>Results = rs, GroupError = None\<rparr>], collector := AtDeferCancel\<rparr>)"
    by (simp add: collectorStep_def)
  moreover have "todo (s\<lparr>ch := ch s @ [\<lparr>Results = rs, GroupError = None\<rparr>],
      collector := AtDeferCancel\<rparr>) < todo s"
    using AtSend by (simp add: todo_def)
  ultimately show ?thesis by blast
next
  case AtDeferCancel
  then have "step tg Collector s = Some (s\<lparr>ctxDone := True, collector := AtDeferClose\<rparr>)"
    by (simp add: collectorStep_def)
  moreover have "todo (s\<lparr>ctxDone := True, collector := AtDeferClose\<rparr>) < todo s"
    using AtDeferCancel by (simp add: todo_def)
  ultimately show ?thesis by blast
next
  case AtDeferClose
  then have "step tg Collector s = Some (s\<lparr>chClosed := True, collector := Returned\<rparr>)"
    by (simp add: collectorStep_def)
  moreover have "todo (s\<lparr>chClosed := True, collector := Returned\<rparr>) < todo s"
    using AtDeferClose by (simp add: todo_def)
  ultimately show ?thesis by blast
next
  case Returned
  with N show ?thesis by simp
qed

lemma collector_finishes:
  assumes V: "check tg = None" and R: "reachable tg s"
  shows "\<exists>es s'. collectorOnly es \<and> exec tg es s = Some s' \<and> collector s' = Returned"
  using R
proof (induction "todo s" arbitrary: s rule: less_induct)
  case less
  show ?case
  proof (cases "collector s = Returned")
    case True
    then have "collectorOnly [] \<and> exec tg [] s = Some s \<and> collector s = Returned"
      by (simp add: collectorOnly_def)
    then show ?thesis by blast
  next
    case False
    from V less.prems have "inv_collector tg s" by (simp add: reachable_inv)
    from progress_step[OF this False] obtain ev s1 where
      ev: "ev = Collector \<or> ev = Deadline" and st: "step tg ev s = Some s1" and m: "todo s1 < todo s"
      by blast
    from less.prems st have "reachable tg s1" by (rule reachable.next_state)
    from less.hyps[OF m this] obtain es s' where
      es: "collectorOnly es" "exec tg es s1 = Some s'" "collector s' = Returned"
      by blast
    from ev es(1) have "collectorOnly (ev # es)" by (auto simp add: collectorOnly_def)
    moreover from st es(2) have "exec tg (ev # es) s = Some s'" by simp
    ultimately show ?thesis using es(3) by blast
  qed
qed

lemma returned_sent_once:
  assumes "check tg = None" and "reachable tg s" and "collector s = Returned"
  shows "chClosed s \<and> length (sent s) = 1"
  using reachable_inv[OF assms(1,2)] assms(3) by (simp add: inv_collector_def)

text \<open>
  Every run that passes the pre-flight check sends at most one outcome on the returned
  channel, has sent exactly one once the channel is closed, and can always get there by
  steps of the collecting goroutine and of the deadline alone.
\<close>

lemma valid_run_one_send_then_close:
  assumes V: "check tg = None" and R: "reachable tg s"
  shows "length (sent s) \<le> 1 \<and> (chClosed s \<longrightarrow> length (sent s) = 1)
       \<and> (\<exists>es s'. collectorOnly es \<and> exec tg es s = Some s' \<and> chClosed s' \<and> length (sent s') = 1)"
proof -
  from V R have I: "inv_collector tg s" by (simp add: reachable_inv)
  then have a: "length (sent s) \<le> 1" by (simp add: inv_collector_def)
  from I have b: "chClosed s \<longrightarrow> length (sent s) = 1" by (auto simp add: inv_collector_def)
  from collector_finishes[OF V R] obtain es s' where
    es: "collectorOnly es" "exec tg es s = Some s'" "collector s' = Returned" by blast
  from R es(2) have "reachable tg s'" by (rule exec_reachable)
  from returned_sent_once[OF V this es(3)] es(1,2) a b show ?thesis by blast
qed

section \<open>Workers at their two selects\<close>

lemma distinct_length_less:
  "distinct xs \<Longrightarrow> set xs \<subseteq> {..<n} \<Longrightarrow> i < n \<Longrightarrow> i \<notin> set xs \<Longrightarrow> length xs < n"
proof -
  assume d: "distinct xs" and s: "set xs \<subseteq> {..<n}" and i: "i < n" and n: "i \<notin> set xs"
  from s i n have "set xs \<subseteq> {..<n} - {i}" by auto
  then have "card (set xs) \<le> card ({..<n} - {i})" by (intro card_mono) auto
  also from i have "\<dots> = n - 1" by simp
  finally show ?thesis using d i by (simp add: distinct_card)
qed

text \<open>
  While the collection channel is open, a worker at the inner \<^verbatim>\<open>select\<close> finds room in
  the buffer: every \<open>Result\<close> in it comes from another worker.
\<close>

lemma send_never_blocks:
  assumes V: "check tg = None" and R: "reachable tg s" and C: "\<not> retChanClosed s"
    and i: "i < length (tasks tg)" and W: "workers s ! i = Racing ret"
  shows "length (retChan s) < length (tasks tg) \<and> step tg (SelectSend i) s \<noteq> None"
proof -
  from V R have I: "inv_wg tg s" "inv_collector tg s" "inv_delivery tg s"
    by (simp_all add: reachable_inv)
  from I(1) i have l: "i < length (workers s)" by (simp add: inv_wg_def)
  from I(2) C have ph: "phase (collector s) < 4" by (simp add: inv_collector_def)
  then have "collected (collector s) = []" by (cases "collector s") simp_all
  with I(3) ph have "map Some (retChan s) = map (resultOf tg) (delivery s)"
    by (simp add: inv_delivery_def)
  then have "length (map Some (retChan s)) = length (map (resultOf tg) (delivery s))" by simp
  then have len: "length (retChan s) = length (delivery s)" by simp
  from I(3) W have n: "i \<notin> set (delivery s)" by (auto simp add: inv_delivery_def)
  from I(3) have "distinct (delivery s)" "set (delivery s) \<subseteq> {..<length (tasks tg)}"
    by (auto simp add: inv_delivery_def)
  from distinct_length_less[OF this i n] len have room: "length (retChan s) < length (tasks tg)"
    by simp
  with l i W C show ?thesis by (simp add: selectSend_def launched_def)
qed

text \<open>
  A worker at the inner \<^verbatim>\<open>select\<close> after \<^verbatim>\<open>close(retChan)\<close>: the context is done, so
  the timeout case can proceed and the worker is never blocked; the send case can
  proceed too, and panics.
\<close>

lemma racing_after_close:
  assumes V: "check tg = None" and R: "reachable tg s" and C: "retChanClosed s"
    and i: "i < length (tasks tg)" and W: "workers s ! i = Racing ret"
  shows "ctxDone s
       \<and> step tg (SelectDone i) s = Some (timeoutPath tg i ret s)
       \<and> step tg (SelectSend i) s =
           Some (s\<lparr>workers := (workers s)[i := Recovering ''send on closed channel'']\<rparr>)"
proof -
  from V R have I: "inv_wg tg s" "inv_collector tg s" by (simp_all add: reachable_inv)
  from I(1) i have l: "i < length (workers s)" by (simp add: inv_wg_def)
  from I(2) C have "3 \<le> phase (collector s)" by (simp add: inv_collector_def)
  with reachable_inv_close[OF V R] have "ctxDone s \<or> pending (workers s) = 0"
    by (simp add: inv_close_def)
  with pending_zero_Exited[of "workers s" i] l W have d: "ctxDone s" by auto
  with l i W C show ?thesis
    by (simp add: selectDone_def selectSend_def launched_def)
qed

text \<open>
  Once the context is done, a worker that is still inside its task or at its first
  \<^verbatim>\<open>select\<close> is routed to the timeout path, whatever happens afterwards.
\<close>

lemma late_worker_routed:
  assumes V: "check tg = None" and R: "reachable tg s" and D: "ctxDone s"
    and i: "i < length (tasks tg)"
    and W: "workers s ! i = Running \<or> (\<exists>ret. workers s ! i = Checking ret)"
    and E: "exec tg es s = Some s'"
  shows "i \<notin> set (delivery s') \<and> (\<forall>r. workers s' ! i \<noteq> Racing r)
       \<and> (\<forall>v e. Execute (tasks tg ! i) = Returns v e
                 \<and> (workers s' ! i = Finishing \<or> workers s' ! i = Exited)
            \<longrightarrow> callsOf i s' = (if TaskTimeout (tasks tg ! i) then [(i, v, e)] else []))"
proof -
  from V R have "inv_calls tg s" by (simp add: reachable_inv)
  with i W have "i \<notin> set (delivery s)" by (auto simp add: inv_calls_def)
  with D W have "routed tg i s" by (auto simp add: routed_def)
  from routed_exec[OF this E] have r: "routed tg i s'" .
  from R E have "reachable tg s'" by (rule exec_reachable)
  with V have c: "inv_calls tg s'" by (simp add: reachable_inv)
  from r have a: "i \<notin> set (delivery s')" "\<forall>r. workers s' ! i \<noteq> Racing r"
    by (auto simp add: routed_def)
  have b: "callsOf i s' = (if TaskTimeout (tasks tg ! i) then [(i, v, e)] else [])"
    if x: "Execute (tasks tg ! i) = Returns v e"
      and f: "workers s' ! i = Finishing \<or> workers s' ! i = Exited" for v e
  proof -
    from i x have res: "resultOf tg i = Some \<lparr>Value = v, Error = e\<rparr>" by (rule resultOf_Returns)
    from c i have alt: "callsOf i s' = [] \<or>
           (\<exists>ret. resultOf tg i = Some ret \<and> TaskTimeout (tasks tg ! i)
                  \<and> callsOf i s' = [(i, Value ret, Error ret)])"
      by (auto simp add: inv_calls_def)
    show ?thesis
    proof (cases "TaskTimeout (tasks tg ! i)")
      case True
      with r f res have "callsOf i s' \<noteq> []" by (auto simp add: routed_def)
      with alt res True show ?thesis by auto
    next
      case False
      with alt show ?thesis by auto
    qed
  qed
  from a b show ?thesis by blast
qed

lemma late_worker_two_steps:
  assumes l: "i < length (workers s)" "i < length (tasks tg)" and D: "ctxDone s"
    and W: "workers s ! i = Running" and X: "Execute (tasks tg ! i) = Returns v e"
    and T: "TaskTimeout (tasks tg ! i)"
  shows "exec tg [Worker i, Worker i] s =
           Some (s\<lparr>workers := (workers s)[i := Finishing],
                   timeoutCalls := timeoutCalls s @ [(i, v, e)]\<rparr>)"
  using assms by (simp add: workerStep_def launched_def timeoutPath_def)


section \<open>Validation and collection\<close>

lemmas model_defs = NewTaskGroup_def AddTask_def AddTasks_def AddTaskFunc_def Reset_def
  check_def isTimeout_def takeContext_def canFire_def ExecChan_def run_def
  workerStep_def selectSend_def selectDone_def recoverStep_def waiterStep_def deadlineStep_def
  collectorStep_def receiveStep_def launched_def timeoutPath_def

lemmas demo_defs = demoEmpty_def demoUntimed_def demoOne_def demoTwo_def demoAsync_def
  demoPanic_def

lemma check_failed_iff:
  "check tg \<noteq> None \<longleftrightarrow> tasks tg = [] \<or> (collectResult tg \<and> \<not> 0 < timeout tg)"
  by (simp add: check_def isTimeout_def)

lemma no_deadline_no_collection:
  "check tg = None \<Longrightarrow> \<not> isTimeout tg \<Longrightarrow> \<not> collectResult tg"
  by (auto simp add: check_def split: if_splits)

lemma no_collection_no_results:
  assumes C: "\<not> collectResult tg" and R: "reachable tg s"
  shows "\<forall>gr \<in> set (sent s). Results gr = []"
proof (cases "check tg")
  case None
  with R have I: "inv_collector tg s" "inv_delivery tg s" by (simp_all add: reachable_inv)
  show ?thesis
  proof
    fix gr assume G: "gr \<in> set (sent s)"
    with I(1) have "6 \<le> phase (collector s)"
      by (auto simp add: inv_collector_def split: if_splits)
    with I(2) G C show "Results gr = []" by (simp add: inv_delivery_def)
  qed
next
  case (Some e)
  from failed_reachable[OF Some R] Some show ?thesis
    by (auto simp add: ExecChan_failed sent_def)
qed

section \<open>The claims of the specification\<close>

text \<open>
  C1, where the code departs from it. When the pre-flight check fails, the outcome is
  sent once, but nothing closes the returned channel: in every state of such an
  execution the channel is open and the collecting goroutine, which closes it on the
  other path, does not exist.
\<close>

theorem C1_failed_check_leaves_channel_open:
  assumes F: "check tg = Some e" and R: "reachable tg s"
  shows "sent s = [\<lparr>Results = [], GroupError = Some e\<rparr>] \<and> \<not> chClosed s
       \<and> collector s = NotLaunched \<and> step tg Collector s = None"
  using failed_reachable[OF F R] F
  by (auto simp add: ExecChan_failed sent_def collectorStep_def)

theorem C1_witness:
  "check demoEmpty = Some ''no tasks to execute'' \<and> reachable demoEmpty (ExecChan demoEmpty)
   \<and> sent (ExecChan demoEmpty) = [\<lparr>Results = [], GroupError = Some ''no tasks to execute''\<rparr>]
   \<and> chClosed (ExecChan demoEmpty) = False"
  using C1_failed_check_leaves_channel_open[of demoEmpty "''no tasks to execute''" "ExecChan demoEmpty"]
    reachable.start[of demoEmpty]
  by (simp add: demo_defs model_defs sent_def)

text \<open>
  C2. The outcome of an execution carries a non-nil top-level error exactly when the
  pre-flight check fails (no task, or collection without a positive timeout). Then the
  error is the one \<open>check\<close> returns, the results are empty and no worker exists (nothing
  is logged, no timeout handler runs). Otherwise the top-level error is nil and every
  collected \<open>Result\<close> is the pair that some task's \<open>Execute\<close> returned, error included.
\<close>

theorem C2_top_level_error_iff_validation_fails:
  assumes R: "reachable tg s" and G: "gr \<in> set (sent s)"
  shows "(GroupError gr \<noteq> None \<longleftrightarrow> tasks tg = [] \<or> (collectResult tg \<and> \<not> 0 < timeout tg))
       \<and> (GroupError gr \<noteq> None \<longrightarrow>
            GroupError gr = check tg \<and> Results gr = [] \<and> workers s = []
            \<and> log s = [] \<and> timeoutCalls s = [] \<and> delivery s = [])
       \<and> (GroupError gr = None \<longrightarrow>
            (\<forall>r \<in> set (Results gr). \<exists>i < length (tasks tg).
               Execute (tasks tg ! i) = Returns (Value r) (Error r)))"
proof (cases "check tg")
  case None
  with R have C: "inv_collector tg s" and D: "inv_delivery tg s"
    by (simp_all add: reachable_inv)
  from C G have e: "GroupError gr = None" by (simp add: inv_collector_def)
  from C G have ph: "6 \<le> phase (collector s)"
    by (auto simp add: inv_collector_def split: if_splits)
  have own: "\<exists>i < length (tasks tg). Execute (tasks tg ! i) = Returns (Value r) (Error r)"
    if r: "r \<in> set (Results gr)" for r
  proof (cases "collectResult tg")
    case True
    with D G ph have "map Some (Results gr) = map (resultOf tg) (delivery s)"
      by (simp add: inv_delivery_def)
    moreover from r have "Some r \<in> set (map Some (Results gr))" by simp
    ultimately obtain i where "resultOf tg i = Some r" by auto
    then show ?thesis using resultOf_SomeD by blast
  next
    case False
    with D G ph have "Results gr = []" by (simp add: inv_delivery_def)
    with r show ?thesis by simp
  qed
  from None have "\<not> (tasks tg = [] \<or> (collectResult tg \<and> \<not> 0 < timeout tg))"
    using check_failed_iff[of tg] by simp
  with e own show ?thesis by simp
next
  case (Some e)
  then have f: "tasks tg = [] \<or> (collectResult tg \<and> \<not> 0 < timeout tg)"
    using check_failed_iff[of tg] by simp
  from failed_reachable[OF Some R] G Some have
    "gr = \<lparr>Results = [], GroupError = Some e\<rparr> \<and> workers s = [] \<and> log s = []
     \<and> timeoutCalls s = [] \<and> delivery s = []"
    by (auto simp add: ExecChan_failed sent_def)
  with f Some show ?thesis by simp
qed

theorem C2_witness:
  "check demoUntimed = Some ''no timeout set for result collection''
   \<and> sent (ExecChan demoUntimed)
       = [\<lparr>Results = [], GroupError = Some ''no timeout set for result collection''\<rparr>]
   \<and> workers (ExecChan demoUntimed) = []
   \<and> map_option sent
        (exec demoTwo
           [Worker 1, Worker 1, SelectSend 1,
            Collector, Deadline, Collector, Collector, Collector, Collector, Collector]
           (ExecChan demoTwo))
       = Some [\<lparr>Results = [\<lparr>Value = 11, Error = Some ''failed''\<rparr>], GroupError = None\<rparr>]
   \<and> (\<exists>i < length (tasks demoTwo). Execute (tasks demoTwo ! i) = Returns 11 (Some ''failed''))"
proof -
  have f: "sent (ExecChan demoUntimed)
       = [\<lparr>Results = [], GroupError = Some ''no timeout set for result collection''\<rparr>]"
    by (simp add: demo_defs model_defs sent_def)
  from C2_top_level_error_iff_validation_fails
      [OF reachable.start, of "\<lparr>Results = [], GroupError = Some ''no timeout set for result collection''\<rparr>" demoUntimed]
    f
  have a: "check demoUntimed = Some ''no timeout set for result collection''"
    "workers (ExecChan demoUntimed) = []"
    by simp_all
  obtain s where s: "exec demoTwo
           [Worker 1, Worker 1, SelectSend 1,
            Collector, Deadline, Collector, Collector, Collector, Collector, Collector]
           (ExecChan demoTwo) = Some s"
    and o: "sent s = [\<lparr>Results = [\<lparr>Value = 11, Error = Some ''failed''\<rparr>], GroupError = None\<rparr>]"
    by (simp add: demo_defs model_defs sent_def)
  from s have r: "reachable demoTwo s"
    using exec_reachable[OF reachable.start] by blast
  from C2_top_level_error_iff_validation_fails
      [OF r, of "\<lparr>Results = [\<lparr>Value = 11, Error = Some ''failed''\<rparr>], GroupError = None\<rparr>"]
    o
  have b: "\<exists>i < length (tasks demoTwo). Execute (tasks demoTwo ! i) = Returns 11 (Some ''failed'')"
    by simp
  show ?thesis
    unfolding s by (simp only: option.map o f a b)
qed







text \<open>
  C6 (as amended). For a group with no deadline configured that passes the pre-flight
  check: the first statement of the collecting goroutine cancels the run's context; six
  of its statements, with no step of any worker, deliver the outcome and close the
  channel; the caller then receives an empty result sequence and a nil error while every
  worker is still inside its task; and no execution of such a group delivers anything else.
\<close>

theorem C6_no_deadline_returns_without_waiting:
  assumes V: "check tg = None" and T: "\<not> isTimeout tg"
  shows "map_option (\<lambda>s. (collector s, ctxDone s)) (exec tg [Collector] (ExecChan tg))
           = Some (AtWait, True)
       \<and> map_option (\<lambda>s. (GroupExecute s, chClosed s, workers s))
           (exec tg [Collector, Collector, Collector, Collector, Collector, Collector, Receive] (ExecChan tg))
           = Some (Some ([], None), True, map (\<lambda>t. Running) (tasks tg))
       \<and> (\<forall>s gr. reachable tg s \<and> gr \<in> set (sent s) \<longrightarrow> Results gr = [] \<and> GroupError gr = None)"
proof -
  from V T have C: "\<not> collectResult tg" by (rule no_deadline_no_collection)
  have a: "map_option (\<lambda>s. (collector s, ctxDone s)) (exec tg [Collector] (ExecChan tg))
           = Some (AtWait, True)"
    using T by (simp add: ExecChan_valid[OF V] collectorStep_def)
  have b: "map_option (\<lambda>s. (GroupExecute s, chClosed s, workers s))
           (exec tg [Collector, Collector, Collector, Collector, Collector, Collector, Receive] (ExecChan tg))
           = Some (Some ([], None), True, map (\<lambda>t. Running) (tasks tg))"
    using T C by (simp add: ExecChan_valid[OF V] collectorStep_def receiveStep_def GroupExecute_def run_def)
  have c: "Results gr = [] \<and> GroupError gr = None" if "reachable tg s" "gr \<in> set (sent s)" for s gr
    using no_collection_no_results[OF C that(1)] reachable_inv[OF V that(1)] that(2)
    by (simp add: inv_collector_def)
  from a b c show ?thesis by blast
qed

theorem C6_witness:
  "check demoAsync = None \<and> \<not> isTimeout demoAsync
   \<and> map_option (\<lambda>s. (GroupExecute s, chClosed s, workers s))
        (exec demoAsync [Collector, Collector, Collector, Collector, Collector, Collector, Receive]
           (ExecChan demoAsync))
      = Some (Some ([], None), True, [Running])"
  using C6_no_deadline_returns_without_waiting[of demoAsync]
  by (simp add: demo_defs model_defs)

text \<open>
  Counterexample to C6 as stated: a group with no deadline configured and no task
  returns a non-nil error.
\<close>

theorem C6_counterexample:
  "isTimeout demoEmpty = False
   \<and> exec demoEmpty [Receive] (ExecChan demoEmpty)
     = Some \<lparr>workers = [], ctxDone = False, retChan = [], retChanClosed = False, wg = 0,
              waiter = WNotLaunched, collector = NotLaunched, ch = [], chClosed = False,
              received = [\<lparr>Results = [], GroupError = Some ''no tasks to execute''\<rparr>],
              log = [], timeoutCalls = [], delivery = []\<rparr>
   \<and> GroupExecute
        \<lparr>workers = [], ctxDone = False, retChan = [], retChanClosed = False, wg = 0,
         waiter = WNotLaunched, collector = NotLaunched, ch = [], chClosed = False,
         received = [\<lparr>Results = [], GroupError = Some ''no tasks to execute''\<rparr>],
         log = [], timeoutCalls = [], delivery = []\<rparr>
     = Some ([], Some ''no tasks to execute'')"
  by (simp add: demo_defs model_defs GroupExecute_def)

text \<open>
  C7. With result collection disabled, every outcome an execution sends has an empty
  result sequence, whatever the tasks do; and from every state of the run the outcome is
  delivered by steps of the collecting goroutine and the deadline alone, so that no
  worker has to move for the run to end.
\<close>

theorem C7_no_collection_empty_results_and_no_blocking:
  assumes C: "\<not> collectResult tg" and R: "reachable tg s"
  shows "map Results (sent s) = replicate (length (sent s)) []
       \<and> (\<exists>es s'. collectorOnly es \<and> exec tg es s = Some s' \<and> map Results (sent s') = [[]])"
proof -
  have emp: "map Results (sent t) = replicate (length (sent t)) []" if "reachable tg t" for t
    using no_collection_no_results[OF C that]
    by (induction "sent t") (auto simp add: map_replicate_const intro: replicate_eqI)
  show ?thesis
  proof (cases "check tg")
    case None
    from valid_run_one_send_then_close[OF None R] obtain es s' where
      es: "collectorOnly es" "exec tg es s = Some s'" "length (sent s') = 1" by blast
    from R es(2) have "reachable tg s'" by (rule exec_reachable)
    from emp[OF this] es(3) have "map Results (sent s') = [[]]" by simp
    with es(1,2) emp[OF R] show ?thesis by auto
  next
    case (Some e)
    from failed_reachable[OF Some R] Some have "map Results (sent s) = [[]]"
      by (auto simp add: ExecChan_failed sent_def)
    moreover have "collectorOnly [] \<and> exec tg [] s = Some s" by (simp add: collectorOnly_def)
    ultimately show ?thesis using emp[OF R] by auto
  qed
qed

theorem C7_witness:
  "\<not> collectResult demoAsync \<and> reachable demoAsync (ExecChan demoAsync)
   \<and> map Results (sent (ExecChan demoAsync)) = []
   \<and> (\<exists>es s'. collectorOnly es \<and> exec demoAsync es (ExecChan demoAsync) = Some s'
        \<and> map Results (sent s') = [[]])"
  using C7_no_collection_empty_results_and_no_blocking[of demoAsync "ExecChan demoAsync"]
    reachable.start[of demoAsync]
  by (simp add: demo_defs model_defs sent_def)

text \<open>
  C8. With collection enabled, the result sequence of every outcome is the sequence of
  the \<open>Result\<close>s in the order in which their sends into the collection channel
  succeeded (\<open>delivery\<close>), each being the pair its task returned; no task index occurs
  twice in that order; and while the channel is open its buffer holds exactly these
  \<open>Result\<close>s in that order, which is the order the drain receives them in. The witness
  runs a group whose second task is delivered first: the results come in the order
  second, first.
\<close>

theorem C8_results_in_delivery_order:
  assumes C: "collectResult tg" and R: "reachable tg s"
  shows "(\<forall>gr \<in> set (sent s). map Some (Results gr) = map (resultOf tg) (delivery s))
       \<and> distinct (delivery s) \<and> set (delivery s) \<subseteq> {..<length (tasks tg)}
       \<and> (\<not> retChanClosed s \<longrightarrow> map Some (retChan s) = map (resultOf tg) (delivery s))"
proof (cases "check tg")
  case None
  with R have I: "inv_collector tg s" "inv_delivery tg s" by (simp_all add: reachable_inv)
  have a: "map Some (Results gr) = map (resultOf tg) (delivery s)" if "gr \<in> set (sent s)" for gr
  proof -
    from I(1) that have "6 \<le> phase (collector s)"
      by (auto simp add: inv_collector_def split: if_splits)
    with I(2) that C show ?thesis by (simp add: inv_delivery_def)
  qed
  from I(2) have b: "distinct (delivery s)" "set (delivery s) \<subseteq> {..<length (tasks tg)}"
    by (auto simp add: inv_delivery_def)
  have c: "map Some (retChan s) = map (resultOf tg) (delivery s)" if "\<not> retChanClosed s"
  proof -
    from I(1) that have ph: "phase (collector s) < 4" by (simp add: inv_collector_def)
    then have "collected (collector s) = []" by (cases "collector s") simp_all
    with I(2) ph show ?thesis by (simp add: inv_delivery_def)
  qed
  from a b c show ?thesis by blast
next
  case (Some e)
  from failed_reachable[OF Some R] Some show ?thesis
    by (auto simp add: ExecChan_failed sent_def)
qed

theorem C8_witness:
  "collectResult demoTwo
   \<and> map_option (\<lambda>s. (delivery s, map Results (sent s)))
        (exec demoTwo
           [Worker 1, Worker 1, SelectSend 1, Worker 0, Worker 0, SelectSend 0,
            Collector, Deadline, Collector, Collector, Collector, Collector, Collector, Collector]
           (ExecChan demoTwo))
      = Some ([1, 0], [[\<lparr>Value = 11, Error = Some ''failed''\<rparr>, \<lparr>Value = 10, Error = None\<rparr>]])
   \<and> map (resultOf demoTwo) [1, 0]
      = map Some [\<lparr>Value = 11, Error = Some ''failed''\<rparr>, \<lparr>Value = 10, Error = None\<rparr>]"
proof -
  obtain s where s: "exec demoTwo
           [Worker 1, Worker 1, SelectSend 1, Worker 0, Worker 0, SelectSend 0,
            Collector, Deadline, Collector, Collector, Collector, Collector, Collector, Collector]
           (ExecChan demoTwo) = Some s"
    and d: "delivery s = [1, 0]"
    and o: "sent s = [\<lparr>Results = [\<lparr>Value = 11, Error = Some ''failed''\<rparr>, \<lparr>Value = 10, Error = None\<rparr>],
                       GroupError = None\<rparr>]"
    by (simp add: demo_defs model_defs sent_def)
  have c: "collectResult demoTwo" by (simp add: demo_defs model_defs)
  from s have r: "reachable demoTwo s"
    using exec_reachable[OF reachable.start] by blast
  from C8_results_in_delivery_order[OF c r] d o
  have m: "map (resultOf demoTwo) [1, 0]
      = map Some [\<lparr>Value = 11, Error = Some ''failed''\<rparr>, \<lparr>Value = 10, Error = None\<rparr>]"
    by simp
  show ?thesis
    unfolding s by (simp only: option.map c d o m) simp
qed

text \<open>
  C9. \<open>Reset\<close> clears the task list, so the next execution of the group, with no task
  added, fails the pre-flight check with the error "no tasks to execute": that outcome is
  what the caller of \<open>Execute\<close> receives.
\<close>

theorem C9_reset_then_execute_fails_empty:
  "tasks (Reset tg) = []
   \<and> check (Reset tg) = Some ''no tasks to execute''
   \<and> map_option GroupExecute (exec (Reset tg) [Receive] (ExecChan (Reset tg)))
       = Some (Some ([], Some ''no tasks to execute''))"
  by (simp add: Reset_def check_def ExecChan_def receiveStep_def GroupExecute_def)

text \<open>
  C10 (as amended). For a group with no deadline configured that passes the pre-flight
  check: no outcome ever carries a \<open>Result\<close>; the run's context is done as soon as the
  collecting goroutine is past its first statement, the \<^verbatim>\<open>cancel()\<close>; and for a task
  with a timeout handler that is still inside \<open>Execute\<close> when the context is done, the
  worker's next two statements call the handler with the returned pair, in every
  continuation of the run the handler has been called exactly once with that pair when
  the worker is past its check, and the \<open>Result\<close> is never sent. Nothing is said of a
  worker that reaches its first check before the \<^verbatim>\<open>cancel()\<close>.
\<close>

theorem C10_no_deadline_handler_runs_after_cancel:
  assumes V: "check tg = None" and T: "\<not> isTimeout tg" and R: "reachable tg s"
  shows "(\<forall>gr \<in> set (sent s). Results gr = [])
       \<and> (collector s \<noteq> AtCancel \<longrightarrow> ctxDone s)
       \<and> (\<forall>i v e. ctxDone s \<and> i < length (tasks tg) \<and> workers s ! i = Running
              \<and> Execute (tasks tg ! i) = Returns v e \<and> TaskTimeout (tasks tg ! i)
            \<longrightarrow> exec tg [Worker i, Worker i] s =
                  Some (s\<lparr>workers := (workers s)[i := Finishing],
                          timeoutCalls := timeoutCalls s @ [(i, v, e)]\<rparr>)
                \<and> (\<forall>es s'. exec tg es s = Some s'
                       \<longrightarrow> i \<notin> set (delivery s')
                           \<and> (workers s' ! i = Finishing \<or> workers s' ! i = Exited
                                \<longrightarrow> callsOf i s' = [(i, v, e)])))"
proof -
  from V T have C: "\<not> collectResult tg" by (rule no_deadline_no_collection)
  from V R have I: "inv_wg tg s" "inv_collector tg s" by (simp_all add: reachable_inv)
  have a: "\<forall>gr \<in> set (sent s). Results gr = []"
    using C R by (rule no_collection_no_results)
  have b: "ctxDone s" if "collector s \<noteq> AtCancel"
  proof -
    from I(2) that have "2 \<le> phase (collector s)"
      by (cases "collector s") (simp_all add: inv_collector_def)
    with I(2) T show ?thesis by (simp add: inv_collector_def)
  qed
  have c: "exec tg [Worker i, Worker i] s =
             Some (s\<lparr>workers := (workers s)[i := Finishing],
                     timeoutCalls := timeoutCalls s @ [(i, v, e)]\<rparr>)
           \<and> (\<forall>es s'. exec tg es s = Some s'
                  \<longrightarrow> i \<notin> set (delivery s')
                      \<and> (workers s' ! i = Finishing \<or> workers s' ! i = Exited
                           \<longrightarrow> callsOf i s' = [(i, v, e)]))"
    if D: "ctxDone s" and i: "i < length (tasks tg)" and W: "workers s ! i = Running"
      and X: "Execute (tasks tg ! i) = Returns v e" and H: "TaskTimeout (tasks tg ! i)"
    for i v e
  proof -
    from I(1) i have l: "i < length (workers s)" by (simp add: inv_wg_def)
    from W have W': "workers s ! i = Running \<or> (\<exists>ret. workers s ! i = Checking ret)" by simp
    have "i \<notin> set (delivery s')
          \<and> (workers s' ! i = Finishing \<or> workers s' ! i = Exited \<longrightarrow> callsOf i s' = [(i, v, e)])"
      if E: "exec tg es s = Some s'" for es s'
      using late_worker_routed[OF V R D i W' E] X H by simp
    with late_worker_two_steps[OF l i D W X H] show ?thesis by blast
  qed
  from a b c show ?thesis by blast
qed

theorem C10_witness:
  "check demoAsync = None \<and> \<not> isTimeout demoAsync
   \<and> map_option (\<lambda>s. (ctxDone s, workers s)) (exec demoAsync [Collector] (ExecChan demoAsync))
       = Some (True, [Running])
   \<and> map_option (\<lambda>s. (workers s, timeoutCalls s))
        (exec demoAsync ([Collector] @ [Worker 0, Worker 0]) (ExecChan demoAsync))
       = Some ([Finishing], [(0, 7, None)])"
proof -
  define s :: "nat state" where
    "s = \<lparr>workers = [Running], ctxDone = True, retChan = [],
          retChanClosed = False, wg = 1, waiter = Waiting, collector = AtWait, ch = [],
          chClosed = False, received = [], log = [], timeoutCalls = [], delivery = []\<rparr>"
  have s: "exec demoAsync [Collector] (ExecChan demoAsync) = Some s"
    by (simp add: s_def demo_defs model_defs)
  have v: "check demoAsync = None" and t: "\<not> isTimeout demoAsync"
    and h: "TaskTimeout (tasks demoAsync ! 0)"
    and x: "Execute (tasks demoAsync ! 0) = Returns 7 None" and n: "0 < length (tasks demoAsync)"
    by (simp_all add: demo_defs model_defs)
  from s have r: "reachable demoAsync s"
    using exec_reachable[OF reachable.start] by blast
  have w: "ctxDone s" "workers s ! 0 = Running" by (simp_all add: s_def)
  from C10_no_deadline_handler_runs_after_cancel[OF v t r] w n x h
  have k: "exec demoAsync [Worker 0, Worker 0] s =
      Some (s\<lparr>workers := (workers s)[0 := Finishing],
              timeoutCalls := timeoutCalls s @ [(0, 7, None)]\<rparr>)"
    by blast
  have e: "exec demoAsync ([Collector] @ [Worker 0, Worker 0]) (ExecChan demoAsync) =
      Some (s\<lparr>workers := (workers s)[0 := Finishing],
              timeoutCalls := timeoutCalls s @ [(0, 7, None)]\<rparr>)"
    by (simp only: exec_append s option.case k)
  show ?thesis
    unfolding e s by (simp add: v t) (simp add: s_def)
qed

text \<open>
  Counterexample to C10 as stated: with no deadline configured, a task with a timeout
  handler returns before the collecting goroutine has cancelled the context; its worker
  sends the \<open>Result\<close> into the collection channel and exits, and the handler is never
  called.
\<close>

theorem C10_counterexample:
  "isTimeout demoAsync = False \<and> TaskTimeout (tasks demoAsync ! 0) = True
   \<and> exec demoAsync
         [Worker 0, Worker 0, SelectSend 0, Worker 0,
          Collector, Collector, Collector, Collector, Collector, Collector]
         (ExecChan demoAsync)
     = Some \<lparr>workers = [Exited], ctxDone = True, retChan = [\<lparr>Value = 7, Error = None\<rparr>],
              retChanClosed = True, wg = 0, waiter = Waiting, collector = Returned,
              ch = [\<lparr>Results = [], GroupError = None\<rparr>], chClosed = True, received = [],
              log = [], timeoutCalls = [], delivery = [0]\<rparr>"
  by (simp add: demo_defs model_defs)

end
